theory Spec2Isabelle
  imports Main "HOL-Library.Word"
begin

section \<open>Bytes and little-endian 16-bit fields\<close>

type_synonym byte = "8 word"
type_synonym u16 = "16 word"

text \<open>Go reports failures either as returned errors (\<open>errors.New\<close>) or as panics.
  \<open>InvalidConfig\<close> is "page buffer too small", \<open>PageFull\<close> is "page is full",
  \<open>NotFound\<close> is "slot not found" (and the \<open>false\<close> flag of \<open>Get\<close>);
  \<open>BoundsPanic\<close> is the runtime panic of a slice expression out of range and
  \<open>SlotIndexPanic\<close> the explicit \<open>panic\<close> of \<open>setSlot\<close>. The page manager returns
  \<open>InvalidConfig\<close> ("invalid page size" of \<open>Open\<close>), \<open>InvalidArgument\<close> ("invalid page ID",
  "invalid page size" of \<open>WritePage\<close>), \<open>IOError\<close> (an error of the file) and \<open>Closed\<close>
  (the file's error after \<open>Close\<close>).\<close>

datatype error = InvalidConfig | PageFull | NotFound | BoundsPanic | SlotIndexPanic
  | InvalidArgument | IOError | Closed

text \<open>\<open>binary.LittleEndian.Uint16(b[i:i+2])\<close>: \<open>uint16(b[0]) | uint16(b[1])<<8\<close>.\<close>

definition Uint16 :: "byte list \<Rightarrow> nat \<Rightarrow> u16" where
  "Uint16 b i = of_nat (unat (b ! i) + 256 * unat (b ! (i + 1)))"

text \<open>\<open>binary.LittleEndian.PutUint16(b[i:i+2], v)\<close>: \<open>b[0] = byte(v); b[1] = byte(v >> 8)\<close>.\<close>

definition PutUint16 :: "byte list \<Rightarrow> nat \<Rightarrow> u16 \<Rightarrow> byte list" where
  "PutUint16 b i v = b[i := of_nat (unat v mod 256), i + 1 := of_nat (unat v div 256)]"

text \<open>\<open>copy(b[lo:hi], src)\<close>: copies \<open>min (hi - lo) (len src)\<close> bytes to offset \<open>lo\<close>.\<close>

definition copy :: "byte list \<Rightarrow> nat \<Rightarrow> nat \<Rightarrow> byte list \<Rightarrow> byte list" where
  "copy b lo hi src =
     (let n = min (hi - lo) (length src) in take lo b @ take n src @ drop (lo + n) b)"

section \<open>The slotted page (package storage)\<close>

text \<open>\<open>type HeapPage struct { buf []byte }\<close>. The buffer is modelled as the list of
  its bytes, with capacity equal to length (as \<open>make([]byte, pageSize)\<close> gives it).
  Every method mutates \<open>p.buf\<close> in place; the model returns the page after the call
  next to the call's result, also when the result is an error or a panic.\<close>

record HeapPage =
  buf :: "byte list"

abbreviation hdrSize :: nat where "hdrSize \<equiv> 8"
abbreviation slotSize :: nat where "slotSize \<equiv> 4"

definition slotCount :: "HeapPage \<Rightarrow> u16" where
  "slotCount p = Uint16 (buf p) 0"

definition freeStart :: "HeapPage \<Rightarrow> u16" where
  "freeStart p = Uint16 (buf p) 2"

definition freeEnd :: "HeapPage \<Rightarrow> u16" where
  "freeEnd p = Uint16 (buf p) 4"

definition flags :: "HeapPage \<Rightarrow> u16" where
  "flags p = Uint16 (buf p) 6"

definition setSlotCount :: "HeapPage \<Rightarrow> u16 \<Rightarrow> HeapPage" where
  "setSlotCount p v = p\<lparr>buf := PutUint16 (buf p) 0 v\<rparr>"

definition setFreeStart :: "HeapPage \<Rightarrow> u16 \<Rightarrow> HeapPage" where
  "setFreeStart p v = p\<lparr>buf := PutUint16 (buf p) 2 v\<rparr>"

definition setFreeEnd :: "HeapPage \<Rightarrow> u16 \<Rightarrow> HeapPage" where
  "setFreeEnd p v = p\<lparr>buf := PutUint16 (buf p) 4 v\<rparr>"

definition setFlags :: "HeapPage \<Rightarrow> u16 \<Rightarrow> HeapPage" where
  "setFlags p v = p\<lparr>buf := PutUint16 (buf p) 6 v\<rparr>"

text \<open>\<open>freeSpace\<close>: the difference is taken in \<open>int\<close> and clamped at 0.\<close>

definition freeSpace :: "HeapPage \<Rightarrow> u16" where
  "freeSpace p =
     (let fs = int (unat (freeEnd p)) - int (unat (freeStart p))
      in if fs < 0 then 0 else word_of_int fs)"

text \<open>\<open>slot(i)\<close> returns \<open>(off, ln, ok)\<close>; the two slice expressions panic when the
  entry lies beyond the buffer.\<close>

definition slot :: "HeapPage \<Rightarrow> int \<Rightarrow> error + (u16 \<times> u16 \<times> bool)" where
  "slot p i =
     (if i < 0 \<or> i \<ge> int (unat (slotCount p)) then Inr (0, 0, False)
      else let base = hdrSize + nat i * slotSize in
        if length (buf p) < base + 4 then Inl BoundsPanic
        else Inr (Uint16 (buf p) base, Uint16 (buf p) (base + 2), True))"

text \<open>\<open>setSlot(i, off, ln)\<close>: the index check panics; so does each of the two slice
  expressions when it reaches beyond the buffer (the first write is then already done).\<close>

definition setSlot :: "HeapPage \<Rightarrow> int \<Rightarrow> u16 \<Rightarrow> u16 \<Rightarrow> error option \<times> HeapPage" where
  "setSlot p i off ln =
     (if i < 0 \<or> i > int (unat (slotCount p)) then (Some SlotIndexPanic, p)
      else let base = hdrSize + nat i * slotSize in
        if length (buf p) < base + 2 then (Some BoundsPanic, p)
        else let p1 = p\<lparr>buf := PutUint16 (buf p) base off\<rparr> in
          if length (buf p1) < base + 4 then (Some BoundsPanic, p1)
          else (None, p1\<lparr>buf := PutUint16 (buf p1) (base + 2) ln\<rparr>))"

text \<open>\<open>NewHeapPage(buf)\<close>; \<open>uint16(len(buf))\<close> keeps the low 16 bits of the length.\<close>

definition NewHeapPage :: "byte list \<Rightarrow> error + HeapPage" where
  "NewHeapPage b =
     (if length b < hdrSize then Inl InvalidConfig
      else let hp = \<lparr>buf = b\<rparr> in
        if slotCount hp = 0 \<and> freeStart hp = 0 \<and> freeEnd hp = 0
        then Inr (setFlags (setFreeEnd (setFreeStart (setSlotCount hp 0) (of_nat hdrSize))
                    (of_nat (length b))) 0)
        else Inr hp)"

text \<open>\<open>Insert(rec)\<close>. \<open>need\<close> and \<open>newEnd\<close> are computed in \<open>uint16\<close>, so
  both wrap; the slice expression \<open>p.buf[newEnd:p.freeEnd()]\<close> panics when
  \<open>newEnd > freeEnd\<close> or \<open>freeEnd > cap(buf)\<close>. The returned \<open>-1\<close> of the error
  case is not modelled.\<close>

definition Insert :: "HeapPage \<Rightarrow> byte list \<Rightarrow> (error + int) \<times> HeapPage" where
  "Insert p rec =
     (let need = (of_nat (length rec) :: u16) + of_nat slotSize in
      if freeSpace p < need then (Inl PageFull, p)
      else let newEnd = freeEnd p - of_nat (length rec) in
        if unat (freeEnd p) < unat newEnd \<or> length (buf p) < unat (freeEnd p)
        then (Inl BoundsPanic, p)
        else
          let p1 = p\<lparr>buf := copy (buf p) (unat newEnd) (unat (freeEnd p)) rec\<rparr>;
              slotID = int (unat (slotCount p1));
              p2 = setSlotCount p1 (slotCount p1 + 1);
              p3 = setFreeStart p2 (freeStart p2 + of_nat slotSize)
          in case setSlot p3 slotID newEnd (of_nat (length rec)) of
               (Some e, p4) \<Rightarrow> (Inl e, p4)
             | (None, p4) \<Rightarrow> (Inr slotID, setFreeEnd p4 newEnd))"

text \<open>\<open>Get(slotID)\<close> returns a copy of the record, or \<open>(nil, false)\<close>.\<close>

definition Get :: "HeapPage \<Rightarrow> int \<Rightarrow> error + byte list" where
  "Get p slotID =
     (case slot p slotID of
        Inl e \<Rightarrow> Inl e
      | Inr (off, ln, ok) \<Rightarrow>
          if \<not> ok \<or> ln = 0 then Inl NotFound
          else if length (buf p) < unat off + unat ln then Inl BoundsPanic
          else Inr (take (unat ln) (drop (unat off) (buf p))))"

text \<open>\<open>Delete(slotID)\<close>: a logical delete, the slot's length becomes 0.\<close>

definition Delete :: "HeapPage \<Rightarrow> int \<Rightarrow> error option \<times> HeapPage" where
  "Delete p slotID =
     (case slot p slotID of
        Inl e \<Rightarrow> (Some e, p)
      | Inr (off, ln, ok) \<Rightarrow>
          if \<not> ok \<or> ln = 0 then (Some NotFound, p)
          else setSlot p slotID off 0)"

text \<open>\<open>Update(slotID, rec)\<close>: \<open>Delete\<close>, then \<open>Insert\<close>; the new slot ID is dropped.\<close>

definition Update :: "HeapPage \<Rightarrow> int \<Rightarrow> byte list \<Rightarrow> error option \<times> HeapPage" where
  "Update p slotID rec =
     (case Delete p slotID of
        (Some e, p1) \<Rightarrow> (Some e, p1)
      | (None, p1) \<Rightarrow>
          (case Insert p1 rec of
             (Inl e, p2) \<Rightarrow> (Some e, p2)
           | (Inr _, p2) \<Rightarrow> (None, p2)))"

text \<open>The invariants of a slotted page (spec, data model, invariants 1, 3 and 4): the
  header is in the buffer, the slot directory ends at \<open>freeStart\<close>, the free region
  \<open>[freeStart, freeEnd)\<close> lies in the buffer, and every live record lies in
  \<open>[freeEnd, len(buf))\<close>.\<close>

definition page_inv :: "HeapPage \<Rightarrow> bool" where
  "page_inv p \<longleftrightarrow>
     hdrSize \<le> length (buf p) \<and>
     unat (freeStart p) = hdrSize + slotSize * unat (slotCount p) \<and>
     unat (freeStart p) \<le> unat (freeEnd p) \<and>
     unat (freeEnd p) \<le> length (buf p) \<and>
     (\<forall>i < unat (slotCount p).
        Uint16 (buf p) (hdrSize + i * slotSize + 2) \<noteq> 0 \<longrightarrow>
          unat (freeEnd p) \<le> unat (Uint16 (buf p) (hdrSize + i * slotSize)) \<and>
          unat (Uint16 (buf p) (hdrSize + i * slotSize)) +
            unat (Uint16 (buf p) (hdrSize + i * slotSize + 2)) \<le> length (buf p))"

text \<open>A freshly initialized page of \<open>n\<close> bytes: \<open>NewHeapPage\<close> on a zero-filled buffer,
  as \<open>Pager.ReadPage\<close> returns it for a page never written.\<close>

definition fresh :: "nat \<Rightarrow> HeapPage" where
  "fresh n = (case NewHeapPage (replicate n 0) of Inr p \<Rightarrow> p | Inl _ \<Rightarrow> \<lparr>buf = []\<rparr>)"


text \<open>A caller's sequence of operations on one page. \<open>step\<close> keeps the error of a call
  (if any) and the page after it; \<open>run\<close> lists these for a sequence of calls and stops
  after a panic, which ends the process.\<close>

datatype op = OpInsert "byte list" | OpGet int | OpDelete int | OpUpdate int "byte list"

fun step :: "HeapPage \<Rightarrow> op \<Rightarrow> error option \<times> HeapPage" where
  "step p (OpInsert r) = (case Insert p r of (Inl e, q) \<Rightarrow> (Some e, q) | (Inr _, q) \<Rightarrow> (None, q))"
| "step p (OpGet s) = (case Get p s of Inl e \<Rightarrow> (Some e, p) | Inr _ \<Rightarrow> (None, p))"
| "step p (OpDelete s) = Delete p s"
| "step p (OpUpdate s r) = Update p s r"

definition is_panic :: "error option \<Rightarrow> bool" where
  "is_panic e \<longleftrightarrow> e = Some BoundsPanic \<or> e = Some SlotIndexPanic"

fun run :: "HeapPage \<Rightarrow> op list \<Rightarrow> (error option \<times> HeapPage) list" where
  "run p [] = []"
| "run p (x # xs) =
     (step p x # (if is_panic (fst (step p x)) then [] else run (snd (step p x)) xs))"

section \<open>The page manager (package pager)\<close>

text \<open>\<open>int64\<close> arithmetic wraps around in Go; \<open>int64 x\<close> is the value of the
  mathematical integer \<open>x\<close> as a 64-bit two's complement number.\<close>

definition int64 :: "int \<Rightarrow> int" where
  "int64 x = (x + 2 ^ 63) mod 2 ^ 64 - 2 ^ 63"

text \<open>The file behind \<open>*os.File\<close> is the list of its bytes, and the file system maps
  a path to its file. The methods of \<open>os.File\<close> follow the documentation of package
  \<open>os\<close>, on a file system that never fails by itself: \<open>Truncate\<close> cuts the file or
  extends it with zeros and refuses a negative size; \<open>WriteAt\<close> and \<open>ReadAt\<close> refuse a
  negative offset; \<open>WriteAt\<close> beyond the end fills the gap with zeros; \<open>ReadAt\<close>
  reads what the file holds from the offset on and leaves the rest of the (zeroed)
  buffer alone, reporting \<open>io.EOF\<close>, which \<open>ReadPage\<close> ignores. \<open>None\<close> is an error.\<close>

definition Truncate :: "byte list \<Rightarrow> int \<Rightarrow> byte list option" where
  "Truncate f n =
     (if n < 0 then None else Some (take (nat n) f @ replicate (nat n - length f) 0))"

definition WriteAt :: "byte list \<Rightarrow> byte list \<Rightarrow> int \<Rightarrow> byte list option" where
  "WriteAt f b off =
     (if off < 0 then None
      else Some (take (nat off) f @ replicate (nat off - length f) 0 @ b @
                 drop (nat off + length b) f))"

definition ReadAt :: "byte list \<Rightarrow> nat \<Rightarrow> int \<Rightarrow> byte list option" where
  "ReadAt f n off =
     (if off < 0 then None
      else let d = take n (drop (nat off) f) in Some (d @ replicate (n - length d) 0))"

type_synonym disk = "string \<Rightarrow> byte list option"

text \<open>\<open>type Pager struct { f *os.File; pageSize int; mu sync.Mutex }\<close>. The open file
  is its path and whether it has been closed; the mutex serializes the calls and is not
  modelled. Every method returns its result and the file system after the call.\<close>

record Pager =
  path :: string
  pageSize :: int
  closed :: bool

definition Size :: "disk \<Rightarrow> Pager \<Rightarrow> error + int" where
  "Size d p =
     (if closed p then Inl Closed
      else case d (path p) of None \<Rightarrow> Inl IOError | Some f \<Rightarrow> Inr (int (length f)))"

definition Open :: "disk \<Rightarrow> string \<Rightarrow> int \<Rightarrow> (error + Pager) \<times> disk" where
  "Open d pth ps =
     (if ps \<le> 0 \<or> ps mod 512 \<noteq> 0 then (Inl InvalidConfig, d)
      else (Inr \<lparr>path = pth, pageSize = ps, closed = False\<rparr>,
            case d pth of None \<Rightarrow> d(pth \<mapsto> []) | Some f \<Rightarrow> d))"

definition Close :: "Pager \<Rightarrow> error option \<times> Pager" where
  "Close p = (if closed p then (Some Closed, p) else (None, p\<lparr>closed := True\<rparr>))"

definition ensureSize :: "disk \<Rightarrow> Pager \<Rightarrow> int \<Rightarrow> error option \<times> disk" where
  "ensureSize d p n =
     (case Size d p of
        Inl e \<Rightarrow> (Some e, d)
      | Inr sz \<Rightarrow>
          if sz \<ge> n then (None, d)
          else (case d (path p) of
                  None \<Rightarrow> (Some IOError, d)
                | Some f \<Rightarrow>
                    (case Truncate f n of
                       None \<Rightarrow> (Some IOError, d)
                     | Some f' \<Rightarrow> (None, d(path p \<mapsto> f')))))"

definition ReadPage :: "disk \<Rightarrow> Pager \<Rightarrow> int \<Rightarrow> (error + byte list) \<times> disk" where
  "ReadPage d p pageID =
     (if pageID < 0 then (Inl InvalidArgument, d)
      else let off = int64 (pageID * pageSize p);
               b = replicate (nat (pageSize p)) (0 :: byte) in
        case Size d p of
          Inl e \<Rightarrow> (Inl e, d)
        | Inr sz \<Rightarrow>
            if off \<ge> sz then
              (case ensureSize d p (int64 (off + pageSize p)) of
                 (Some e, d') \<Rightarrow> (Inl e, d')
               | (None, d') \<Rightarrow> (Inr b, d'))
            else (case d (path p) of
                    None \<Rightarrow> (Inl IOError, d)
                  | Some f \<Rightarrow>
                      (case ReadAt f (length b) off of
                         None \<Rightarrow> (Inl IOError, d)
                       | Some b' \<Rightarrow> (Inr b', d))))"

definition WritePage :: "disk \<Rightarrow> Pager \<Rightarrow> int \<Rightarrow> byte list \<Rightarrow> error option \<times> disk" where
  "WritePage d p pageID b =
     (if int (length b) \<noteq> pageSize p then (Some InvalidArgument, d)
      else let off = int64 (pageID * pageSize p) in
        case ensureSize d p (int64 (off + pageSize p)) of
          (Some e, d') \<Rightarrow> (Some e, d')
        | (None, d') \<Rightarrow>
            (case d' (path p) of
               None \<Rightarrow> (Some IOError, d')
             | Some f \<Rightarrow>
                 (case WriteAt f b off of
                    None \<Rightarrow> (Some IOError, d')
                  | Some f' \<Rightarrow> (None, d'(path p \<mapsto> f')))))"

definition Flush :: "disk \<Rightarrow> Pager \<Rightarrow> error option \<times> disk" where
  "Flush d p = (if closed p then (Some Closed, d) else (None, d))"

definition PageSize :: "Pager \<Rightarrow> int" where
  "PageSize p = pageSize p"

section \<open>Reading back what was written\<close>

lemma length_PutUint16 [simp]: "length (PutUint16 b i v) = length b"
  by (simp add: PutUint16_def)

lemma Uint16_PutUint16_same:
  assumes "i + 1 < length b"
  shows "Uint16 (PutUint16 b i v) i = v"
proof -
  have lt: "unat v < 65536" using unsigned_less [of v, where ?'a = nat] by simp
  have d: "unat v div 256 < 256" using lt by simp
  have "unat (of_nat (unat v mod 256) :: byte) = unat v mod 256"
    by (simp add: unat_of_nat)
  moreover have "unat (of_nat (unat v div 256) :: byte) = unat v div 256"
    using d by (simp add: unat_of_nat)
  ultimately show ?thesis
    using assms by (simp add: Uint16_def PutUint16_def)
qed

lemma nth_PutUint16:
  "j < length b \<Longrightarrow> i + 1 < length b \<Longrightarrow> PutUint16 b i v ! j =
     (if j = i + 1 then of_nat (unat v div 256) else if j = i then of_nat (unat v mod 256) else b ! j)"
  by (simp add: PutUint16_def nth_list_update)

lemma Uint16_PutUint16_other:
  "i + 1 < j \<or> j + 1 < i \<Longrightarrow> Uint16 (PutUint16 b i v) j = Uint16 b j"
  by (auto simp: Uint16_def PutUint16_def)

lemma length_copy: "lo \<le> hi \<Longrightarrow> hi \<le> length b \<Longrightarrow> length (copy b lo hi src) = length b"
  by (auto simp: copy_def Let_def min_def)

lemma nth_copy_below: "j < lo \<Longrightarrow> lo \<le> length b \<Longrightarrow> copy b lo hi src ! j = b ! j"
  by (simp add: copy_def Let_def nth_append)

lemma nth_copy_above:
  "hi \<le> j \<Longrightarrow> lo \<le> hi \<Longrightarrow> hi \<le> length b \<Longrightarrow> j < length b \<Longrightarrow> copy b lo hi src ! j = b ! j"
  by (auto simp: copy_def Let_def nth_append min_def)

lemma Uint16_copy_below:
  "j + 1 < lo \<Longrightarrow> lo \<le> length b \<Longrightarrow> Uint16 (copy b lo hi src) j = Uint16 b j"
  by (simp add: Uint16_def nth_copy_below)

lemma copy_rec:
  "length src = hi - lo \<Longrightarrow> lo \<le> hi \<Longrightarrow> hi \<le> length b \<Longrightarrow>
   take (length src) (drop lo (copy b lo hi src)) = src"
  by (simp add: copy_def Let_def)

lemma unat_u16_lt: "unat (w :: u16) < 65536"
  using unsigned_less [of w, where ?'a = nat] by simp

lemma unat_of_nat_u16: "n < 65536 \<Longrightarrow> unat (of_nat n :: u16) = n"
  by (simp add: unat_of_nat)

lemma unat_freeSpace:
  assumes "unat (freeStart p) \<le> unat (freeEnd p)"
  shows "unat (freeSpace p) = unat (freeEnd p) - unat (freeStart p)"
proof -
  let ?k = "unat (freeEnd p) - unat (freeStart p)"
  have k: "?k < 65536" using unat_u16_lt [of "freeEnd p"] by simp
  have "int (unat (freeEnd p)) - int (unat (freeStart p)) = int ?k"
    using assms by simp
  then have "freeSpace p = of_nat ?k"
    by (simp add: freeSpace_def Let_def)
  then show ?thesis using k by (simp add: unat_of_nat_u16)
qed

lemma unat_freeSpace_le: "unat (freeSpace p) \<le> unat (freeEnd p) - unat (freeStart p)"
proof (cases "unat (freeStart p) \<le> unat (freeEnd p)")
  case True
  then show ?thesis by (simp add: unat_freeSpace)
next
  case False
  then have "int (unat (freeEnd p)) - int (unat (freeStart p)) < 0" by linarith
  then have "freeSpace p = 0" unfolding freeSpace_def Let_def by (simp only: if_True)
  then show ?thesis by simp
qed


lemma Insert_fits:
  assumes inv: "page_inv p" and fit: "length rec + 4 \<le> unat (freeSpace p)"
  shows "Insert p rec =
    (Inr (int (unat (slotCount p))),
     p\<lparr>buf := PutUint16 (PutUint16 (PutUint16 (PutUint16 (PutUint16
        (copy (buf p) (unat (freeEnd p) - length rec) (unat (freeEnd p)) rec)
          0 (slotCount p + 1))
          2 (freeStart p + 4))
          (8 + 4 * unat (slotCount p)) (freeEnd p - of_nat (length rec)))
          (8 + 4 * unat (slotCount p) + 2) (of_nat (length rec)))
          4 (freeEnd p - of_nat (length rec))\<rparr>)"
proof -
  let ?n = "unat (slotCount p)" and ?E = "unat (freeEnd p)" and ?L = "length rec"
  let ?N = "?E - ?L"
  have fs: "unat (freeStart p) = 8 + 4 * ?n" and le: "unat (freeStart p) \<le> ?E"
    and El: "?E \<le> length (buf p)"
    using inv by (simp_all add: page_inv_def)
  have E16: "?E < 65536" by (rule unat_u16_lt)
  have sp: "?L + 4 \<le> ?E - unat (freeStart p)" using fit le by (simp add: unat_freeSpace)
  have L16: "?L < 65532" using sp E16 by linarith
  have uL: "unat (of_nat ?L :: u16) = ?L" using L16 by (simp add: unat_of_nat_u16)
  have need: "unat ((of_nat ?L :: u16) + 4) = ?L + 4"
    using L16 uL by (simp add: unat_word_ariths)
  have nofull: "\<not> freeSpace p < (of_nat ?L :: u16) + 4"
    using fit need by (simp add: word_less_nat_alt)
  have uN: "unat (freeEnd p - of_nat ?L) = ?N"
    using uL sp by (simp add: unat_sub word_le_nat_alt)
  have N12: "12 + 4 * ?n \<le> ?N" using sp fs by linarith
  have sc1: "Uint16 (copy (buf p) ?N ?E rec) 0 = slotCount p"
    using N12 El by (simp add: Uint16_copy_below slotCount_def)
  have fs1: "Uint16 (copy (buf p) ?N ?E rec) 2 = freeStart p"
    using N12 El by (simp add: Uint16_copy_below freeStart_def)
  have len1: "length (copy (buf p) ?N ?E rec) = length (buf p)"
    using El by (simp add: length_copy)
  have n1: "unat (slotCount p + 1) = ?n + 1"
    using fs le E16 by (simp add: unat_word_ariths)
  have big: "8 + 4 * ?n + 4 \<le> length (buf p)" using N12 El by linarith
  have mono: "\<not> uint (slotCount p + 1) < uint (slotCount p)"
  proof -
    have "slotCount p \<le> slotCount p + 1" using n1 by (simp add: word_le_nat_alt)
    then show ?thesis by (simp add: word_le_def)
  qed
  have NE: "\<not> ?E < ?N" by simp
  show ?thesis
    using nofull uN El sc1 fs1 len1 n1 big mono NE
    by (simp add: Insert_def Let_def setSlot_def setSlotCount_def setFreeStart_def
        setFreeEnd_def slotCount_def freeStart_def Uint16_PutUint16_other
        Uint16_PutUint16_same mult.commute)
qed


section \<open>Freshly initialized pages\<close>

lemma zero_header:
  assumes "hdrSize \<le> length b" and "take 6 b = replicate 6 0"
  shows "Uint16 b 0 = 0 \<and> Uint16 b 2 = 0 \<and> Uint16 b 4 = 0"
proof -
  have "\<And>i. i < 6 \<Longrightarrow> b ! i = 0"
  proof -
    fix i :: nat assume i: "i < 6"
    then have "b ! i = take 6 b ! i" by simp
    also have "\<dots> = 0" using i assms(2) by simp
    finally show "b ! i = 0" .
  qed
  then show ?thesis by (simp add: Uint16_def)
qed

lemma NewHeapPage_init:
  assumes "hdrSize \<le> length b" and "take 6 b = replicate 6 0"
  shows "NewHeapPage b =
    Inr \<lparr>buf = PutUint16 (PutUint16 (PutUint16 (PutUint16 b 0 0) 2 8) 4 (of_nat (length b))) 6 0\<rparr>"
  using assms zero_header [OF assms]
  by (simp add: NewHeapPage_def slotCount_def freeStart_def freeEnd_def setSlotCount_def
      setFreeStart_def setFreeEnd_def setFlags_def)

lemma fresh_buf:
  "hdrSize \<le> n \<Longrightarrow>
   buf (fresh n) = PutUint16 (PutUint16 (PutUint16 (PutUint16 (replicate n 0) 0 0) 2 8) 4 (of_nat n)) 6 0"
  by (simp add: fresh_def NewHeapPage_init)

lemma fresh_header:
  assumes "hdrSize \<le> n"
  shows "slotCount (fresh n) = 0" and "freeStart (fresh n) = 8"
    and "freeEnd (fresh n) = of_nat n" and "flags (fresh n) = 0"
    and "length (buf (fresh n)) = n"
  using assms
  by (simp_all add: fresh_buf slotCount_def freeStart_def freeEnd_def flags_def
      Uint16_PutUint16_other Uint16_PutUint16_same)

lemma page_inv_fresh:
  assumes "hdrSize \<le> n" and "n < 65536"
  shows "page_inv (fresh n)"
  using assms by (simp add: page_inv_def fresh_header unat_of_nat_u16)


lemma drop_PutUint16: "i + 2 \<le> lo \<Longrightarrow> drop lo (PutUint16 b i v) = drop lo b"
  by (simp add: PutUint16_def)

section \<open>Insert on a page with room\<close>

lemma Insert_fits_props:
  assumes "page_inv p" and "length rec + slotSize \<le> unat (freeSpace p)"
  shows "fst (Insert p rec) = Inr (int (unat (slotCount p)))"
    and "take (length rec) (drop (unat (freeEnd p) - length rec) (buf (snd (Insert p rec)))) = rec"
    and "slot (snd (Insert p rec)) (int (unat (slotCount p))) =
           Inr (freeEnd (snd (Insert p rec)), of_nat (length rec), True)"
    and "unat (freeEnd (snd (Insert p rec))) = unat (freeEnd p) - length rec"
    and "unat (of_nat (length rec) :: u16) = length rec"
    and "unat (slotCount (snd (Insert p rec))) = unat (slotCount p) + 1"
    and "unat (freeStart (snd (Insert p rec))) = unat (freeStart p) + slotSize"
    and "length (buf (snd (Insert p rec))) = length (buf p)"
proof -
  let ?n = "unat (slotCount p)" and ?E = "unat (freeEnd p)" and ?L = "length rec"
  let ?N = "?E - ?L"
  have fs: "unat (freeStart p) = 8 + 4 * ?n" and le: "unat (freeStart p) \<le> ?E"
    and El: "?E \<le> length (buf p)"
    using assms(1) by (simp_all add: page_inv_def)
  have E16: "?E < 65536" by (rule unat_u16_lt)
  have sp: "?L + 4 \<le> ?E - unat (freeStart p)" using assms(2) le by (simp add: unat_freeSpace)
  have L16: "?L < 65532" using sp E16 by linarith
  have uL: "unat (of_nat ?L :: u16) = ?L" using L16 by (simp add: unat_of_nat_u16)
  have uN: "unat (freeEnd p - of_nat ?L) = ?N"
    using uL sp by (simp add: unat_sub word_le_nat_alt)
  have N12: "12 + 4 * ?n \<le> ?N" using sp fs by linarith
  have len1: "length (copy (buf p) ?N ?E rec) = length (buf p)"
    using El by (simp add: length_copy)
  have n1: "unat (slotCount p + 1) = ?n + 1"
    using fs le E16 by (simp add: unat_word_ariths)
  have f1: "unat (freeStart p + 4) = unat (freeStart p) + 4"
    using sp E16 by (simp add: unat_word_ariths)
  have big: "8 + 4 * ?n + 4 \<le> length (buf p)" using N12 El by linarith
  have rec: "take ?L (drop ?N (copy (buf p) ?N ?E rec)) = rec"
    using sp El by (simp add: copy_rec)
  have lt: "\<not> uint (slotCount p + 1) \<le> uint (slotCount p)"
  proof -
    have "slotCount p < slotCount p + 1" using n1 by (simp add: word_less_nat_alt)
    then show ?thesis by (simp add: word_less_def)
  qed
  show "fst (Insert p rec) = Inr (int (unat (slotCount p)))"
    and "take (length rec) (drop (unat (freeEnd p) - length rec) (buf (snd (Insert p rec)))) = rec"
    and "slot (snd (Insert p rec)) (int (unat (slotCount p))) =
           Inr (freeEnd (snd (Insert p rec)), of_nat (length rec), True)"
    and "unat (freeEnd (snd (Insert p rec))) = unat (freeEnd p) - length rec"
    and "unat (of_nat (length rec) :: u16) = length rec"
    and "unat (slotCount (snd (Insert p rec))) = unat (slotCount p) + 1"
    and "unat (freeStart (snd (Insert p rec))) = unat (freeStart p) + slotSize"
    and "length (buf (snd (Insert p rec))) = length (buf p)"
    using uN uL len1 n1 f1 big N12 rec lt
    by (simp_all add: Insert_fits [OF assms] slot_def slotCount_def freeStart_def freeEnd_def
        Uint16_PutUint16_other Uint16_PutUint16_same drop_PutUint16 mult.commute)
qed


text \<open>Claim C5. On a slotted page (one that satisfies the page invariants) whose free
  space is at least \<open>len(R) + 4\<close>, \<open>Insert(R)\<close> returns the slot count before the call
  as the new slot ID, stores the bytes of \<open>R\<close> at \<open>[freeEnd - len(R), freeEnd)\<close>, writes
  the directory entry \<open>(newOffset, len(R))\<close> at that slot, increments \<open>slotCount\<close> by 1,
  advances \<open>freeStart\<close> by 4 and sets \<open>freeEnd\<close> to the new offset; the buffer keeps
  its length. The witness is the scenario of the specification: a 100-byte insert on a
  fresh 4096-byte page returns slot 0, stores at 3996..4096 and leaves \<open>freeStart = 12\<close>,
  \<open>freeEnd = 3996\<close>.\<close>

theorem Insert_success:
  assumes "page_inv p" and "length rec + slotSize \<le> unat (freeSpace p)"
  shows "case Insert p rec of (r, p') \<Rightarrow>
     r = Inr (int (unat (slotCount p))) \<and>
     take (length rec) (drop (unat (freeEnd p) - length rec) (buf p')) = rec \<and>
     slot p' (int (unat (slotCount p))) = Inr (freeEnd p', of_nat (length rec), True) \<and>
     unat (freeEnd p') = unat (freeEnd p) - length rec \<and>
     unat (of_nat (length rec) :: u16) = length rec \<and>
     unat (slotCount p') = unat (slotCount p) + 1 \<and>
     unat (freeStart p') = unat (freeStart p) + slotSize \<and>
     length (buf p') = length (buf p)"
  using Insert_fits_props [OF assms] by (simp add: case_prod_beta)

theorem Insert_success_witness:
  "fst (Insert (fresh 4096) (replicate 100 0xAB)) = Inr 0 \<and>
   take 100 (drop 3996 (buf (snd (Insert (fresh 4096) (replicate 100 0xAB))))) = replicate 100 0xAB \<and>
   slot (snd (Insert (fresh 4096) (replicate 100 0xAB))) 0 = Inr (3996, 100, True) \<and>
   slotCount (snd (Insert (fresh 4096) (replicate 100 0xAB))) = 1 \<and>
   freeStart (snd (Insert (fresh 4096) (replicate 100 0xAB))) = 12 \<and>
   freeEnd (snd (Insert (fresh 4096) (replicate 100 0xAB))) = 3996"
proof -
  have inv: "page_inv (fresh 4096)" by (simp add: page_inv_fresh)
  have sp: "length (replicate 100 (0xAB :: byte)) + slotSize \<le> unat (freeSpace (fresh 4096))"
    by (simp add: unat_freeSpace fresh_header)
  have w: "\<And>(w :: u16) n. n < 65536 \<Longrightarrow> unat w = n \<Longrightarrow> w = of_nat n"
    by auto
  show ?thesis
    using Insert_success [OF inv sp]
    by (auto simp: fresh_header split: prod.splits dest!: w [rotated])
qed

section \<open>Tombstones and frames\<close>

lemma unat_Uint16:
  "unat (Uint16 b i) = unat (b ! i) + 256 * unat (b ! (i + 1))"
proof -
  have "unat (b ! i) < 256" "unat (b ! (i + 1)) < 256"
    using unsigned_less [of "b ! i", where ?'a = nat]
      unsigned_less [of "b ! (i + 1)", where ?'a = nat] by simp_all
  then have "unat (b ! i) + 256 * unat (b ! (i + 1)) < 65536" by linarith
  then show ?thesis unfolding Uint16_def by (rule unat_of_nat_u16)
qed

lemma PutUint16_Uint16_same: "PutUint16 b i (Uint16 b i) = b"
proof -
  have lt: "unat (b ! i) < 256"
    using unsigned_less [of "b ! i", where ?'a = nat] by simp
  have "unat (Uint16 b i) mod 256 = unat (b ! i)"
    using lt by (simp add: unat_Uint16)
  moreover have "unat (Uint16 b i) div 256 = unat (b ! (i + 1))"
    using lt by (simp add: unat_Uint16)
  ultimately show ?thesis by (simp add: PutUint16_def)
qed

lemma slot_live:
  assumes "slot p s = Inr (off, ln, True)"
  shows "0 \<le> s" and "nat s < unat (slotCount p)"
    and "hdrSize + nat s * slotSize + 4 \<le> length (buf p)"
    and "off = Uint16 (buf p) (hdrSize + nat s * slotSize)"
    and "ln = Uint16 (buf p) (hdrSize + nat s * slotSize + 2)"
  using assms by (auto simp: slot_def Let_def simp del: of_nat_unat split: if_splits)

lemma Delete_live:
  assumes "slot p s = Inr (off, ln, True)" and "ln \<noteq> 0"
  shows "Delete p s = (None, p\<lparr>buf := PutUint16 (buf p) (hdrSize + nat s * slotSize + 2) 0\<rparr>)"
proof -
  note l = slot_live [OF assms(1)]
  have idx: "\<not> (s < 0 \<or> int (unat (slotCount p)) < s)" using l(1,2) by linarith
  show ?thesis
    using assms l(3) idx
    by (simp add: Delete_def setSlot_def Let_def l(4) PutUint16_Uint16_same del: of_nat_unat)
qed


lemma page_inv_live:
  assumes "page_inv p" and "slot p t = Inr (off, ln, True)" and "ln \<noteq> 0"
  shows "unat (freeEnd p) \<le> unat off" and "unat off + unat ln \<le> length (buf p)"
    and "hdrSize + slotSize * unat (slotCount p) \<le> unat off"
proof -
  note l = slot_live [OF assms(2)]
  have "Uint16 (buf p) (hdrSize + nat t * slotSize + 2) \<noteq> 0" using assms(3) l(5) by simp
  with assms(1) l(2) have
    "unat (freeEnd p) \<le> unat (Uint16 (buf p) (hdrSize + nat t * slotSize)) \<and>
     unat (Uint16 (buf p) (hdrSize + nat t * slotSize)) +
       unat (Uint16 (buf p) (hdrSize + nat t * slotSize + 2)) \<le> length (buf p)"
    unfolding page_inv_def by blast
  then show "unat (freeEnd p) \<le> unat off" and "unat off + unat ln \<le> length (buf p)"
    using l(4,5) by simp_all
  then show "hdrSize + slotSize * unat (slotCount p) \<le> unat off"
    using assms(1) by (simp add: page_inv_def)
qed

lemma header_PutUint16:
  assumes "hdrSize \<le> i"
  shows "slotCount (p\<lparr>buf := PutUint16 (buf p) i v\<rparr>) = slotCount p"
    and "freeStart (p\<lparr>buf := PutUint16 (buf p) i v\<rparr>) = freeStart p"
    and "freeEnd (p\<lparr>buf := PutUint16 (buf p) i v\<rparr>) = freeEnd p"
    and "flags (p\<lparr>buf := PutUint16 (buf p) i v\<rparr>) = flags p"
    and "freeSpace (p\<lparr>buf := PutUint16 (buf p) i v\<rparr>) = freeSpace p"
  using assms
  by (simp_all add: slotCount_def freeStart_def freeEnd_def flags_def freeSpace_def
      Uint16_PutUint16_other)

lemma slot_tombstone_other:
  assumes s: "0 \<le> s" and ts: "t \<noteq> s"
  shows "slot (p\<lparr>buf := PutUint16 (buf p) (hdrSize + nat s * slotSize + 2) 0\<rparr>) t = slot p t"
proof (cases "t < 0 \<or> int (unat (slotCount p)) \<le> t")
  case True
  then show ?thesis by (simp add: slot_def header_PutUint16 del: of_nat_unat)
next
  case False
  let ?b = "buf p" and ?bs = "hdrSize + nat s * slotSize" and ?bt = "hdrSize + nat t * slotSize"
  have ne: "nat t \<noteq> nat s" using False s ts by linarith
  have e1: "Uint16 (PutUint16 ?b (?bs + 2) 0) ?bt = Uint16 ?b ?bt"
    using ne by (intro Uint16_PutUint16_other) linarith
  have e2: "Uint16 (PutUint16 ?b (?bs + 2) 0) (?bt + 2) = Uint16 ?b (?bt + 2)"
    using ne by (intro Uint16_PutUint16_other) linarith
  show ?thesis
    using False e1 e2 by (simp add: slot_def header_PutUint16 Let_def del: of_nat_unat)
qed

lemma Get_tombstone_other:
  assumes inv: "page_inv p" and s: "0 \<le> s" "nat s < unat (slotCount p)" and ts: "t \<noteq> s"
  shows "Get (p\<lparr>buf := PutUint16 (buf p) (hdrSize + nat s * slotSize + 2) 0\<rparr>) t = Get p t"
proof -
  let ?b = "buf p" and ?bs = "hdrSize + nat s * slotSize"
  let ?p' = "p\<lparr>buf := PutUint16 ?b (?bs + 2) 0\<rparr>"
  have sl: "slot ?p' t = slot p t" by (rule slot_tombstone_other [OF s(1) ts])
  show ?thesis
  proof (cases "slot p t")
    case (Inl e)
    then show ?thesis unfolding Get_def sl by simp
  next
    case (Inr r)
    obtain off ln ok where r: "r = (off, ln, ok)" by (cases r)
    show ?thesis
    proof (cases "ok \<and> ln \<noteq> 0")
      case True
      with Inr r have live: "slot p t = Inr (off, ln, True)" "ln \<noteq> 0" by simp_all
      have "hdrSize + slotSize * unat (slotCount p) \<le> unat off"
        by (rule page_inv_live(3) [OF inv live])
      then have "?bs + 2 + 2 \<le> unat off" using s(2) by linarith
      then have "drop (unat off) (PutUint16 ?b (?bs + 2) 0) = drop (unat off) ?b"
        by (rule drop_PutUint16)
      then show ?thesis unfolding Get_def sl using live by simp
    next
      case False
      then show ?thesis unfolding Get_def sl using Inr r by auto
    qed
  qed
qed


lemma slot_tombstone_same:
  assumes "slot p s = Inr (off, ln, True)"
  shows "slot (p\<lparr>buf := PutUint16 (buf p) (hdrSize + nat s * slotSize + 2) 0\<rparr>) s
         = Inr (off, 0, True)"
proof -
  note l = slot_live [OF assms]
  let ?b = "buf p" and ?bs = "hdrSize + nat s * slotSize"
  have e1: "Uint16 (PutUint16 ?b (?bs + 2) 0) ?bs = off"
    unfolding l(4) by (intro Uint16_PutUint16_other) linarith
  have e2: "Uint16 (PutUint16 ?b (?bs + 2) 0) (?bs + 2) = 0"
    using l(3) by (intro Uint16_PutUint16_same) linarith
  have idx: "\<not> (s < 0 \<or> int (unat (slotCount p)) \<le> s)" using l(1,2) by linarith
  show ?thesis
    using idx e1 e2 l(3) by (simp add: slot_def header_PutUint16 Let_def del: of_nat_unat)
qed

lemma drop_copy_above:
  assumes "length src = hi - lo" and "lo \<le> hi" and "hi \<le> length b" and "hi \<le> off"
  shows "drop off (copy b lo hi src) = drop off b"
proof -
  have "off - lo - length src + hi = off" using assms by linarith
  then show ?thesis using assms by (simp add: copy_def Let_def)
qed

lemma Insert_fits_frame:
  assumes inv: "page_inv p" and fit: "length rec + slotSize \<le> unat (freeSpace p)"
  shows "\<And>j. 6 \<le> j \<Longrightarrow> j + 1 < hdrSize + slotSize * unat (slotCount p) \<Longrightarrow>
           Uint16 (buf (snd (Insert p rec))) j = Uint16 (buf p) j"
    and "\<And>off. unat (freeEnd p) \<le> off \<Longrightarrow>
           drop off (buf (snd (Insert p rec))) = drop off (buf p)"
proof -
  let ?n = "unat (slotCount p)" and ?E = "unat (freeEnd p)" and ?L = "length rec"
  let ?N = "?E - ?L"
  have fs: "unat (freeStart p) = 8 + 4 * ?n" and le: "unat (freeStart p) \<le> ?E"
    and El: "?E \<le> length (buf p)"
    using inv by (simp_all add: page_inv_def)
  have sp: "?L + 4 \<le> ?E - unat (freeStart p)" using fit le by (simp add: unat_freeSpace)
  have N12: "12 + 4 * ?n \<le> ?N" using sp fs by linarith
  {
    fix j assume j: "6 \<le> j" "j + 1 < hdrSize + slotSize * ?n"
    have "Uint16 (copy (buf p) ?N ?E rec) j = Uint16 (buf p) j"
      using j N12 El by (intro Uint16_copy_below) linarith+
    then show "Uint16 (buf (snd (Insert p rec))) j = Uint16 (buf p) j"
      using j by (simp add: Insert_fits [OF inv fit] Uint16_PutUint16_other)
  }
  {
    fix off assume off: "?E \<le> off"
    have "drop off (copy (buf p) ?N ?E rec) = drop off (buf p)"
      using off sp El by (intro drop_copy_above) linarith+
    then show "drop off (buf (snd (Insert p rec))) = drop off (buf p)"
      using off N12 by (simp add: Insert_fits [OF inv fit] drop_PutUint16)
  }
qed

section \<open>Construction\<close>

text \<open>Claim C3, amended. For every buffer of at least 8 and fewer than 65536 bytes whose
  first six bytes are zero, \<open>NewHeapPage\<close> initializes the header to \<open>slotCount = 0\<close>,
  \<open>freeStart = 8\<close>, \<open>freeEnd = len(buf)\<close>, \<open>flags = 0\<close> and leaves the bytes after the
  header as they were; a buffer shorter than 8 bytes is refused with \<open>InvalidConfig\<close>.
  The bound on the length is needed: \<open>freeEnd\<close> is a 16-bit field, and a zero-filled
  buffer of 65536 bytes gets \<open>freeEnd = 0\<close>.\<close>

theorem NewHeapPage_auto_init:
  "(length b < hdrSize \<longrightarrow> NewHeapPage b = Inl InvalidConfig) \<and>
   (hdrSize \<le> length b \<and> length b < 65536 \<and> take 6 b = replicate 6 0 \<longrightarrow>
      (case NewHeapPage b of
         Inl e \<Rightarrow> False
       | Inr p \<Rightarrow> slotCount p = 0 \<and> freeStart p = 8 \<and> unat (freeEnd p) = length b \<and>
           flags p = 0 \<and> length (buf p) = length b \<and> drop hdrSize (buf p) = drop hdrSize b))"
proof (intro conjI impI)
  assume "length b < hdrSize"
  then show "NewHeapPage b = Inl InvalidConfig" by (simp add: NewHeapPage_def)
next
  assume a: "hdrSize \<le> length b \<and> length b < 65536 \<and> take 6 b = replicate 6 0"
  then have init: "NewHeapPage b =
    Inr \<lparr>buf = PutUint16 (PutUint16 (PutUint16 (PutUint16 b 0 0) 2 8) 4 (of_nat (length b))) 6 0\<rparr>"
    by (simp add: NewHeapPage_init)
  show "case NewHeapPage b of
         Inl e \<Rightarrow> False
       | Inr p \<Rightarrow> slotCount p = 0 \<and> freeStart p = 8 \<and> unat (freeEnd p) = length b \<and>
           flags p = 0 \<and> length (buf p) = length b \<and> drop hdrSize (buf p) = drop hdrSize b"
    using a
    by (simp add: init slotCount_def freeStart_def freeEnd_def flags_def
        Uint16_PutUint16_other Uint16_PutUint16_same unat_of_nat_u16 drop_PutUint16)
qed

theorem NewHeapPage_auto_init_witness:
  "NewHeapPage (replicate 7 0) = Inl InvalidConfig \<and>
   NewHeapPage (replicate 4096 0) = Inr (fresh 4096) \<and>
   slotCount (fresh 4096) = 0 \<and> freeStart (fresh 4096) = 8 \<and>
   unat (freeEnd (fresh 4096)) = 4096 \<and> flags (fresh 4096) = 0"
proof -
  have short: "NewHeapPage (replicate 7 0) = Inl InvalidConfig"
    using NewHeapPage_auto_init [of "replicate 7 0"] by simp
  have "hdrSize \<le> length (replicate 4096 (0::byte)) \<and> length (replicate 4096 (0::byte)) < 65536
      \<and> take 6 (replicate 4096 (0::byte)) = replicate 6 0" by simp
  with NewHeapPage_auto_init [of "replicate 4096 0"]
  have "case NewHeapPage (replicate 4096 0) of
         Inl e \<Rightarrow> False
       | Inr p \<Rightarrow> slotCount p = 0 \<and> freeStart p = 8 \<and> unat (freeEnd p) = length (replicate 4096 (0::byte)) \<and>
           flags p = 0 \<and> length (buf p) = length (replicate 4096 (0::byte)) \<and> drop hdrSize (buf p) = drop hdrSize (replicate 4096 0)"
    by blast
  then show ?thesis using short by (auto simp: fresh_def split: sum.splits)
qed

theorem NewHeapPage_large_buffer_counterexample:
  "hdrSize \<le> length (replicate 65536 (0::byte)) \<and>
   take 6 (replicate 65536 (0::byte)) = replicate 6 0 \<and>
   NewHeapPage (replicate 65536 0) = Inr (fresh 65536) \<and>
   unat (freeEnd (fresh 65536)) = 0 \<and>
   unat (freeEnd (fresh 65536)) \<noteq> length (replicate 65536 (0::byte))"
proof -
  have fe: "freeEnd (fresh 65536) = 0"
    using fresh_header(3) [of 65536] by simp
  have new: "NewHeapPage (replicate 65536 0) = Inr (fresh 65536)"
    by (simp add: fresh_def NewHeapPage_init)
  show ?thesis using new by (simp add: fe)
qed

lemma slot_Insert_old:
  assumes inv: "page_inv p" and fit: "length rec + slotSize \<le> unat (freeSpace p)"
    and t: "0 \<le> t" "nat t < unat (slotCount p)"
  shows "slot (snd (Insert p rec)) t = slot p t"
proof -
  let ?p' = "snd (Insert p rec)" and ?bt = "hdrSize + nat t * slotSize"
  note pr = Insert_fits_props [OF inv fit] and fr = Insert_fits_frame [OF inv fit]
  have e1: "Uint16 (buf ?p') ?bt = Uint16 (buf p) ?bt" using t by (intro fr(1)) linarith+
  have e2: "Uint16 (buf ?p') (?bt + 2) = Uint16 (buf p) (?bt + 2)"
    using t by (intro fr(1)) linarith+
  have i1: "\<not> (t < 0 \<or> int (unat (slotCount p)) \<le> t)" using t by linarith
  have i2: "\<not> (t < 0 \<or> int (unat (slotCount ?p')) \<le> t)" using t pr(6) by linarith
  show ?thesis
    unfolding slot_def using i1 i2 e1 e2 pr(8) by (simp add: Let_def del: of_nat_unat)
qed

lemma Get_Insert_old:
  assumes inv: "page_inv p" and fit: "length rec + slotSize \<le> unat (freeSpace p)"
    and t: "0 \<le> t" "nat t < unat (slotCount p)"
  shows "Get (snd (Insert p rec)) t = Get p t"
proof -
  let ?p' = "snd (Insert p rec)"
  note pr = Insert_fits_props [OF inv fit] and fr = Insert_fits_frame [OF inv fit]
  have sl: "slot ?p' t = slot p t" by (rule slot_Insert_old [OF inv fit t])
  show ?thesis
  proof (cases "slot p t")
    case (Inl e)
    then show ?thesis unfolding Get_def sl by simp
  next
    case (Inr r)
    obtain off ln ok where r: "r = (off, ln, ok)" by (cases r)
    show ?thesis
    proof (cases "ok \<and> ln \<noteq> 0")
      case True
      with Inr r have live: "slot p t = Inr (off, ln, True)" "ln \<noteq> 0" by simp_all
      have "unat (freeEnd p) \<le> unat off" by (rule page_inv_live(1) [OF inv live])
      then have "drop (unat off) (buf ?p') = drop (unat off) (buf p)" by (rule fr(2))
      then show ?thesis unfolding Get_def sl using live pr(8) by simp
    next
      case False
      then show ?thesis unfolding Get_def sl using Inr r by auto
    qed
  qed
qed

lemma page_inv_Insert:
  assumes inv: "page_inv p" and fit: "length rec + slotSize \<le> unat (freeSpace p)"
  shows "page_inv (snd (Insert p rec))"
proof -
  let ?p' = "snd (Insert p rec)" and ?n = "unat (slotCount p)"
  note pr = Insert_fits_props [OF inv fit] and fr = Insert_fits_frame [OF inv fit]
  have fs: "unat (freeStart p) = 8 + 4 * ?n" and le: "unat (freeStart p) \<le> unat (freeEnd p)"
    and El: "unat (freeEnd p) \<le> length (buf p)" and h: "hdrSize \<le> length (buf p)"
    using inv by (simp_all add: page_inv_def)
  have sp: "length rec + 4 \<le> unat (freeEnd p) - unat (freeStart p)"
    using fit le by (simp add: unat_freeSpace)
  have slots: "Uint16 (buf ?p') (hdrSize + i * slotSize + 2) \<noteq> 0 \<longrightarrow>
          unat (freeEnd ?p') \<le> unat (Uint16 (buf ?p') (hdrSize + i * slotSize)) \<and>
          unat (Uint16 (buf ?p') (hdrSize + i * slotSize)) +
            unat (Uint16 (buf ?p') (hdrSize + i * slotSize + 2)) \<le> length (buf ?p')"
    if i: "i < unat (slotCount ?p')" for i
  proof (cases "i < ?n")
    case True
    have e1: "Uint16 (buf ?p') (hdrSize + i * slotSize) = Uint16 (buf p) (hdrSize + i * slotSize)"
      using True by (intro fr(1)) linarith+
    have e2: "Uint16 (buf ?p') (hdrSize + i * slotSize + 2) = Uint16 (buf p) (hdrSize + i * slotSize + 2)"
      using True by (intro fr(1)) linarith+
    have old: "Uint16 (buf p) (hdrSize + i * slotSize + 2) \<noteq> 0 \<longrightarrow>
          unat (freeEnd p) \<le> unat (Uint16 (buf p) (hdrSize + i * slotSize)) \<and>
          unat (Uint16 (buf p) (hdrSize + i * slotSize)) +
            unat (Uint16 (buf p) (hdrSize + i * slotSize + 2)) \<le> length (buf p)"
      using inv True unfolding page_inv_def by blast
    show ?thesis unfolding e1 e2 pr(8) using old pr(4) by auto
  next
    case False
    then have i_n: "i = ?n" using i pr(6) by linarith
    have "0 \<le> int ?n" by simp
    from slot_live(4,5) [OF pr(3)]
    have A: "freeEnd ?p' = Uint16 (buf ?p') (hdrSize + ?n * slotSize)"
      and B: "(of_nat (length rec) :: u16) = Uint16 (buf ?p') (hdrSize + ?n * slotSize + 2)"
      by simp_all
    have a: "unat (Uint16 (buf ?p') (hdrSize + ?n * slotSize)) = unat (freeEnd p) - length rec"
      using A pr(4) by simp
    have b: "unat (Uint16 (buf ?p') (hdrSize + ?n * slotSize + 2)) = length rec"
      using B pr(5) by simp
    show ?thesis unfolding i_n a b pr(4) pr(8) using sp El by simp
  qed
  show ?thesis
    unfolding page_inv_def using slots pr(4,6,7,8) fs sp h El by auto
qed

section \<open>Reading a record back\<close>

lemma Get_Insert_new:
  assumes inv: "page_inv p" and fit: "length rec + slotSize \<le> unat (freeSpace p)"
    and ne: "rec \<noteq> []"
  shows "Get (snd (Insert p rec)) (int (unat (slotCount p))) = Inr rec"
proof -
  note pr = Insert_fits_props [OF inv fit]
  have El: "unat (freeEnd p) \<le> length (buf p)" and le: "unat (freeStart p) \<le> unat (freeEnd p)"
    using inv by (simp_all add: page_inv_def)
  have sp: "length rec + 4 \<le> unat (freeEnd p) - unat (freeStart p)"
    using fit le by (simp add: unat_freeSpace)
  have nz: "(of_nat (length rec) :: u16) \<noteq> 0"
  proof
    assume "(of_nat (length rec) :: u16) = 0"
    then have "unat (of_nat (length rec) :: u16) = 0" by simp
    then show False using pr(5) ne by simp
  qed
  have fits: "\<not> length (buf p) < unat (freeEnd p) - length rec + length rec"
    using sp El by linarith
  show ?thesis
    unfolding Get_def pr(3) using nz fits pr(2,4,5,8) by simp
qed

section \<open>Delete\<close>

text \<open>Claim C8. On a slotted page with a live slot \<open>s\<close> (in range, stored length not 0),
  \<open>Delete(s)\<close> succeeds and sets the slot's stored length to 0, leaving its stored
  offset and the record's physical bytes untouched; afterwards \<open>Get(s)\<close> is not-found,
  \<open>Get\<close> on every other slot returns what it returned before, and \<open>slotCount\<close>,
  \<open>freeStart\<close>, \<open>freeEnd\<close> and the free space are unchanged. The witness is the
  scenario of the specification: after a 100-byte and a 50-byte insert on a fresh
  4096-byte page, \<open>Delete(0)\<close> makes slot 0 not-found and leaves slot 1 readable.\<close>

theorem Delete_live_slot:
  assumes "page_inv p" and "slot p s = Inr (off, ln, True)" and "ln \<noteq> 0"
  shows "case Delete p s of (r, p') \<Rightarrow>
     r = None \<and>
     slot p' s = Inr (off, 0, True) \<and>
     take (unat ln) (drop (unat off) (buf p')) = take (unat ln) (drop (unat off) (buf p)) \<and>
     Get p' s = Inl NotFound \<and>
     (\<forall>t. t \<noteq> s \<longrightarrow> Get p' t = Get p t) \<and>
     slotCount p' = slotCount p \<and> freeStart p' = freeStart p \<and>
     freeEnd p' = freeEnd p \<and> freeSpace p' = freeSpace p"
proof -
  note l = slot_live [OF assms(2)]
  let ?bs = "hdrSize + nat s * slotSize"
  let ?p' = "p\<lparr>buf := PutUint16 (buf p) (?bs + 2) 0\<rparr>"
  have del: "Delete p s = (None, ?p')" by (rule Delete_live [OF assms(2,3)])
  have same: "slot ?p' s = Inr (off, 0, True)" by (rule slot_tombstone_same [OF assms(2)])
  have "hdrSize + slotSize * unat (slotCount p) \<le> unat off"
    by (rule page_inv_live(3) [OF assms])
  then have "?bs + 2 + 2 \<le> unat off" using l(2) by linarith
  then have bytes: "drop (unat off) (PutUint16 (buf p) (?bs + 2) 0) = drop (unat off) (buf p)"
    by (rule drop_PutUint16)
  have get: "Get ?p' s = Inl NotFound" unfolding Get_def same by simp
  have others: "\<forall>t. t \<noteq> s \<longrightarrow> Get ?p' t = Get p t"
    using Get_tombstone_other [OF assms(1) l(1,2)] by blast
  have hdr: "slotCount ?p' = slotCount p" "freeStart ?p' = freeStart p"
    "freeEnd ?p' = freeEnd p" "freeSpace ?p' = freeSpace p"
    by (simp_all add: header_PutUint16)
  show ?thesis
    unfolding del using same bytes get others hdr by simp
qed



theorem Delete_live_slot_witness:
  "(let p1 = snd (Insert (fresh 4096) (replicate 100 1));
        p2 = snd (Insert p1 (replicate 50 2))
    in Get p2 0 = Inr (replicate 100 1) \<and>
       fst (Delete p2 0) = None \<and>
       Get (snd (Delete p2 0)) 0 = Inl NotFound \<and>
       Get (snd (Delete p2 0)) 1 = Inr (replicate 50 2) \<and>
       slot (snd (Delete p2 0)) 0 = Inr (3996, 0, True) \<and>
       freeStart (snd (Delete p2 0)) = 16 \<and>
       freeEnd (snd (Delete p2 0)) = 3946 \<and>
       freeSpace (snd (Delete p2 0)) = 3930)"
proof -
  let ?r1 = "replicate 100 (1 :: byte)" and ?r2 = "replicate 50 (2 :: byte)"
  let ?p0 = "fresh 4096"
  let ?p1 = "snd (Insert ?p0 ?r1)"
  let ?p2 = "snd (Insert ?p1 ?r2)"
  have w: "\<And>(w :: u16) n. unat w = n \<Longrightarrow> w = of_nat n" by auto
  have inv0: "page_inv ?p0" by (simp add: page_inv_fresh)
  have fit0: "length ?r1 + slotSize \<le> unat (freeSpace ?p0)"
    by (simp add: unat_freeSpace fresh_header)
  note pr1 = Insert_fits_props [OF inv0 fit0]
  have inv1: "page_inv ?p1" by (rule page_inv_Insert [OF inv0 fit0])
  have h1: "unat (slotCount ?p1) = 1" "unat (freeStart ?p1) = 12" "unat (freeEnd ?p1) = 3996"
    using pr1(4,6,7) by (simp_all add: fresh_header)
  have fit1: "length ?r2 + slotSize \<le> unat (freeSpace ?p1)"
    by (simp add: unat_freeSpace h1)
  note pr2 = Insert_fits_props [OF inv1 fit1]
  have inv2: "page_inv ?p2" by (rule page_inv_Insert [OF inv1 fit1])
  have h2: "unat (slotCount ?p2) = 2" "unat (freeStart ?p2) = 16" "unat (freeEnd ?p2) = 3946"
    using pr2(4,6,7) by (simp_all add: h1)
  have fe1: "freeEnd ?p1 = 3996" using w [OF h1(3)] by simp
  have s0: "slot ?p2 0 = Inr (3996, 100, True)"
    using slot_Insert_old [OF inv1 fit1, of 0] pr1(3) by (simp add: h1 fresh_header fe1)
  have g0: "Get ?p2 0 = Inr ?r1"
    using Get_Insert_old [OF inv1 fit1, of 0] Get_Insert_new [OF inv0 fit0]
    by (simp add: h1 fresh_header)
  have g1: "Get ?p2 1 = Inr ?r2"
    using Get_Insert_new [OF inv1 fit1] by (simp add: h1)
  have nz: "(100 :: u16) \<noteq> 0" by simp
  have fs2: "freeStart ?p2 = 16" "freeEnd ?p2 = 3946"
    using w [OF h2(2)] w [OF h2(3)] by simp_all
  have sp2: "freeSpace ?p2 = 3930"
    using w [OF unat_freeSpace [of ?p2]] by (simp add: h2)
  show ?thesis
    using Delete_live_slot [OF inv2 s0 nz] g0 g1 fs2 sp2
    by (simp add: Let_def case_prod_beta)
qed

section \<open>Empty records\<close>

lemma Delete_result:
  "snd (Delete p t) = p \<or>
   (0 \<le> t \<and> nat t < unat (slotCount p) \<and> fst (Delete p t) = None \<and>
    snd (Delete p t) = p\<lparr>buf := PutUint16 (buf p) (hdrSize + nat t * slotSize + 2) 0\<rparr>)"
proof (cases "slot p t")
  case (Inl e)
  then show ?thesis by (simp add: Delete_def)
next
  case (Inr r)
  obtain off ln ok where r: "r = (off, ln, ok)" by (cases r)
  show ?thesis
  proof (cases "ok \<and> ln \<noteq> 0")
    case True
    with Inr r have live: "slot p t = Inr (off, ln, True)" "ln \<noteq> 0" by simp_all
    show ?thesis using Delete_live [OF live] slot_live(1,2) [OF live(1)] by simp
  next
    case False
    then show ?thesis using Inr r by (auto simp: Delete_def)
  qed
qed

lemma Delete_error_unchanged: "fst (Delete p t) = Some e \<Longrightarrow> snd (Delete p t) = p"
  using Delete_result [of p t] by auto

text \<open>Claim C10. On a slotted page with at least 4 bytes of free space, \<open>Insert\<close> of
  the empty record succeeds and returns a slot ID that was not in use before; the slot's
  stored length is 0, which is how a tombstone is stored, so \<open>Get\<close> of the new slot is
  not-found at once and \<open>Delete\<close> of it fails with not-found, leaving the page as it is.
  The slot stays not-found after any later \<open>Delete\<close> and after any later \<open>Insert\<close>
  that fits.\<close>

theorem Insert_empty_record:
  assumes "page_inv p" and "slotSize \<le> unat (freeSpace p)"
  shows "case Insert p [] of (r, p') \<Rightarrow>
     r = Inr (int (unat (slotCount p))) \<and>
     Get p (int (unat (slotCount p))) = Inl NotFound \<and>
     slot p' (int (unat (slotCount p))) = Inr (freeEnd p, 0, True) \<and>
     Get p' (int (unat (slotCount p))) = Inl NotFound \<and>
     Delete p' (int (unat (slotCount p))) = (Some NotFound, p') \<and>
     (\<forall>t. Get (snd (Delete p' t)) (int (unat (slotCount p))) = Inl NotFound) \<and>
     (\<forall>rec. length rec + slotSize \<le> unat (freeSpace p') \<longrightarrow>
        Get (snd (Insert p' rec)) (int (unat (slotCount p))) = Inl NotFound)"
proof -
  let ?n = "int (unat (slotCount p))" and ?p' = "snd (Insert p [])"
  have fit: "length ([] :: byte list) + slotSize \<le> unat (freeSpace p)" using assms(2) by simp
  note pr = Insert_fits_props [OF assms(1) fit]
  have inv': "page_inv ?p'" by (rule page_inv_Insert [OF assms(1) fit])
  have w: "\<And>(a :: u16) b. unat a = unat b \<Longrightarrow> a = b" by (simp add: word_unat_eq_iff)
  have fe: "freeEnd ?p' = freeEnd p" using pr(4) by (intro w) simp
  have sl: "slot ?p' ?n = Inr (freeEnd p, 0, True)" using pr(3) fe by simp
  have before: "Get p ?n = Inl NotFound" by (simp add: Get_def slot_def del: of_nat_unat)
  have g: "Get ?p' ?n = Inl NotFound" unfolding Get_def sl by simp
  have d: "Delete ?p' ?n = (Some NotFound, ?p')" unfolding Delete_def sl by simp
  have dels: "Get (snd (Delete ?p' t)) ?n = Inl NotFound" for t
  proof (cases "t = ?n")
    case True
    then show ?thesis using d g by simp
  next
    case False
    from Delete_result [of ?p' t] show ?thesis
    proof
      assume "snd (Delete ?p' t) = ?p'"
      then show ?thesis using g by simp
    next
      assume a: "0 \<le> t \<and> nat t < unat (slotCount ?p') \<and> fst (Delete ?p' t) = None \<and>
        snd (Delete ?p' t) = ?p'\<lparr>buf := PutUint16 (buf ?p') (hdrSize + nat t * slotSize + 2) 0\<rparr>"
      have ne: "?n \<noteq> t" using False by simp
      have "Get (?p'\<lparr>buf := PutUint16 (buf ?p') (hdrSize + nat t * slotSize + 2) 0\<rparr>) ?n = Get ?p' ?n"
        using a by (intro Get_tombstone_other [OF inv' _ _ ne]) simp_all
      then show ?thesis using a g by simp
    qed
  qed
  have ins: "Get (snd (Insert ?p' rec)) ?n = Inl NotFound"
    if "length rec + slotSize \<le> unat (freeSpace ?p')" for rec
    using Get_Insert_old [OF inv' that, of ?n] pr(6) g by simp
  show ?thesis
    using pr(1) before sl g d dels ins by (simp add: case_prod_beta)
qed

theorem Insert_empty_record_witness:
  "fst (Insert (fresh 4096) []) = Inr 0 \<and>
   Get (snd (Insert (fresh 4096) [])) 0 = Inl NotFound \<and>
   Delete (snd (Insert (fresh 4096) [])) 0 = (Some NotFound, snd (Insert (fresh 4096) [])) \<and>
   slot (snd (Insert (fresh 4096) [])) 0 = Inr (4096, 0, True)"
proof -
  have inv: "page_inv (fresh 4096)" by (simp add: page_inv_fresh)
  have sp: "slotSize \<le> unat (freeSpace (fresh 4096))"
    by (simp add: unat_freeSpace fresh_header)
  show ?thesis
    using Insert_empty_record [OF inv sp] by (simp add: case_prod_beta fresh_header)
qed

section \<open>Page manager: write, flush, read\<close>

lemma int64_id: "- (2 ^ 63) \<le> x \<Longrightarrow> x < 2 ^ 63 \<Longrightarrow> int64 x = x"
  by (simp add: int64_def)

lemma ensureSize_grows:
  assumes "\<not> closed p" and "d (path p) = Some f" and "0 \<le> n"
  shows "\<exists>f1. ensureSize d p n = (None, d(path p \<mapsto> f1)) \<and> n \<le> int (length f1)"
proof (cases "n \<le> int (length f)")
  case True
  then have "ensureSize d p n = (None, d(path p \<mapsto> f))"
    using assms by (simp add: ensureSize_def Size_def map_upd_triv)
  then show ?thesis using True by blast
next
  case False
  let ?f1 = "take (nat n) f @ replicate (nat n - length f) 0"
  have "ensureSize d p n = (None, d(path p \<mapsto> ?f1))"
    using assms False by (simp add: ensureSize_def Size_def Truncate_def)
  moreover have "n \<le> int (length ?f1)" using False assms(3) by simp
  ultimately show ?thesis by blast
qed

lemma WriteAt_ReadAt:
  assumes "0 \<le> off" and "off + int (length B) \<le> int (length f)"
  shows "\<exists>f2. WriteAt f B off = Some f2 \<and> ReadAt f2 (length B) off = Some B \<and>
           length f2 = length f"
proof -
  let ?f2 = "take (nat off) f @ replicate (nat off - length f) 0 @ B @ drop (nat off + length B) f"
  have l: "nat off \<le> length f" using assms by linarith
  have w: "WriteAt f B off = Some ?f2" using assms(1) by (simp add: WriteAt_def)
  have "drop (nat off) ?f2 = B @ drop (nat off + length B) f" using l by simp
  then have "take (length B) (drop (nat off) ?f2) = B" by simp
  then have "ReadAt ?f2 (length B) off = Some B"
    using assms(1) by (simp add: ReadAt_def Let_def)
  moreover have "length ?f2 = length f" using assms by simp
  ultimately show ?thesis using w by blast
qed

lemma roundtrip_handle:
  assumes op: "\<not> closed p" and fl: "d (path p) = Some f"
    and ps: "0 < pageSize p"
    and id: "0 \<le> pageID" and bound: "(pageID + 1) * pageSize p < 2 ^ 63"
    and len: "int (length B) = pageSize p"
  shows "\<exists>f2. WritePage d p pageID B = (None, d(path p \<mapsto> f2)) \<and>
           ReadPage (d(path p \<mapsto> f2)) p pageID = (Inr B, d(path p \<mapsto> f2))"
proof -
  let ?off = "pageID * pageSize p"
  have off0: "0 \<le> ?off" using id ps by simp
  have n: "?off + pageSize p = (pageID + 1) * pageSize p" by (simp add: algebra_simps)
  have offlt: "?off < 2 ^ 63" using bound ps n by linarith
  have o: "int64 ?off = ?off" using off0 offlt by (intro int64_id) linarith+
  have o2: "int64 (?off + pageSize p) = ?off + pageSize p"
    using off0 ps bound n by (intro int64_id) linarith+
  obtain f1 where e: "ensureSize d p (?off + pageSize p) = (None, d(path p \<mapsto> f1))"
    and l1: "?off + pageSize p \<le> int (length f1)"
    using ensureSize_grows [of p d f "?off + pageSize p"] op fl off0 ps by auto
  obtain f2 where w: "WriteAt f1 B ?off = Some f2" and r: "ReadAt f2 (length B) ?off = Some B"
    and l2: "length f2 = length f1"
    using WriteAt_ReadAt [OF off0, of B f1] l1 len by auto
  have wp: "WritePage d p pageID B = (None, d(path p \<mapsto> f2))"
    using len by (simp add: WritePage_def Let_def o o2 e w)
  have lb: "length B = nat (pageSize p)" using len by linarith
  have "ReadPage (d(path p \<mapsto> f2)) p pageID = (Inr B, d(path p \<mapsto> f2))"
    using id op l1 l2 ps r by (simp add: ReadPage_def Let_def o Size_def lb)
  then show ?thesis using wp by blast
qed


text \<open>Claim C4, amended. On a file system that does not fail by itself, for an open
  handle whose page size is a positive multiple of 512, every \<open>pageID \<ge> 0\<close> with
  \<open>(pageID + 1) * pageSize < 2^63\<close> (the byte range of the page fits the \<open>int64\<close>
  offsets) and every buffer \<open>B\<close> of \<open>pageSize\<close> bytes: \<open>WritePage(pageID, B)\<close> and
  \<open>Flush()\<close> succeed and \<open>ReadPage(pageID)\<close> then returns exactly \<open>B\<close>; after \<open>Close\<close> and
  \<open>Open\<close> of the same path with the same page size, \<open>ReadPage(pageID)\<close> on the new
  handle returns \<open>B\<close> again. Without the bound the offset wraps around: page
  \<open>2^51\<close> of a 4096-byte pager has offset \<open>-2^63\<close> and \<open>WritePage\<close> fails.\<close>

theorem WritePage_Flush_ReadPage:
  assumes "\<not> closed p" and "d (path p) = Some f"
    and "0 < pageSize p" and "pageSize p mod 512 = 0"
    and "0 \<le> pageID" and "(pageID + 1) * pageSize p < 2 ^ 63"
    and "int (length B) = pageSize p"
  shows "case WritePage d p pageID B of (w, d1) \<Rightarrow>
     w = None \<and> Flush d1 p = (None, d1) \<and> ReadPage d1 p pageID = (Inr B, d1) \<and>
     fst (Close p) = None \<and> closed (snd (Close p)) \<and>
     (case Open d1 (path p) (pageSize p) of (r, d2) \<Rightarrow>
        d2 = d1 \<and>
        (case r of Inl e \<Rightarrow> False | Inr p' \<Rightarrow> ReadPage d2 p' pageID = (Inr B, d2)))"
proof -
  obtain f2 where w: "WritePage d p pageID B = (None, d(path p \<mapsto> f2))"
    and r: "ReadPage (d(path p \<mapsto> f2)) p pageID = (Inr B, d(path p \<mapsto> f2))"
    using roundtrip_handle [of p d f pageID B] assms by blast
  have same: "\<lparr>path = path p, pageSize = pageSize p, closed = False\<rparr> = p"
    using assms(1) by simp
  have ok: "\<not> (pageSize p \<le> 0 \<or> pageSize p mod 512 \<noteq> 0)" using assms(3,4) by simp
  show ?thesis
    unfolding w using r assms(1) ok by (simp add: Flush_def Close_def Open_def same)
qed

theorem WritePage_Flush_ReadPage_witness:
  "(let p = \<lparr>path = ''db'', pageSize = 4096, closed = False\<rparr>;
        d = [''db'' \<mapsto> []];
        B = replicate 4096 (0xFF :: byte);
        d1 = snd (WritePage d p 5 B)
    in Open Map.empty ''db'' 4096 = (Inr p, d) \<and>
       fst (WritePage d p 5 B) = None \<and>
       Flush d1 p = (None, d1) \<and>
       ReadPage d1 p 5 = (Inr B, d1) \<and>
       fst (Close p) = None \<and>
       Open d1 ''db'' 4096 = (Inr p, d1))"
proof -
  let ?p = "\<lparr>path = ''db'', pageSize = 4096, closed = False\<rparr>"
  let ?d = "[''db'' \<mapsto> ([] :: byte list)]"
  let ?B = "replicate 4096 (0xFF :: byte)"
  have o: "Open Map.empty ''db'' 4096 = (Inr ?p, ?d)" by (simp add: Open_def)
  let ?d1 = "snd (WritePage ?d ?p 5 ?B)"
  have "case WritePage ?d ?p 5 ?B of (w, d1) \<Rightarrow>
     w = None \<and> Flush d1 ?p = (None, d1) \<and> ReadPage d1 ?p 5 = (Inr ?B, d1) \<and>
     fst (Close ?p) = None \<and> closed (snd (Close ?p)) \<and>
     (case Open d1 (path ?p) (pageSize ?p) of (r, d2) \<Rightarrow>
        d2 = d1 \<and>
        (case r of Inl e \<Rightarrow> False | Inr p' \<Rightarrow> ReadPage d2 p' 5 = (Inr ?B, d2)))"
    by (rule WritePage_Flush_ReadPage [where f = "[]"]) simp_all
  then have t: "fst (WritePage ?d ?p 5 ?B) = None" "Flush ?d1 ?p = (None, ?d1)"
    "ReadPage ?d1 ?p 5 = (Inr ?B, ?d1)" "fst (Close ?p) = None"
    "snd (Open ?d1 ''db'' 4096) = ?d1"
    by (simp_all add: case_prod_beta)
  have "fst (Open ?d1 ''db'' 4096) = Inr ?p" by (simp add: Open_def)
  then have o1: "Open ?d1 ''db'' 4096 = (Inr ?p, ?d1)" using t(5) by (simp add: prod_eq_iff)
  show ?thesis
    unfolding Let_def using o t(1-4) o1 by (intro conjI)
qed

theorem WritePage_offset_overflow_counterexample:
  "(let p = \<lparr>path = ''db'', pageSize = 4096, closed = False\<rparr>;
        d = [''db'' \<mapsto> []];
        B = replicate 4096 (0xFF :: byte)
    in Open Map.empty ''db'' 4096 = (Inr p, d) \<and>
       (0 :: int) \<le> 2 ^ 51 \<and>
       int (length B) = pageSize p \<and>
       int64 (2 ^ 51 * pageSize p) = - (2 ^ 63) \<and>
       WritePage d p (2 ^ 51) B = (Some IOError, d))"
  by (simp add: Let_def Open_def WritePage_def ensureSize_def Size_def WriteAt_def int64_def)

section \<open>Pages out of reach of the wrap-around\<close>

text \<open>\<open>Insert\<close> looks at a record only through \<open>uint16(len(rec))\<close> and the bytes it
  copies, so it treats a record as its first \<open>len(rec) mod 65536\<close> bytes. On a page that
  satisfies the invariants and has \<open>freeEnd < 65532\<close> (every page over a buffer of at
  most 65531 bytes, so every page size below 65536 that is a multiple of 512), a record
  whose truncated length is 65532 or more makes the slice expression panic before
  anything is written, and every other insert either reports a full page or has room.
  On such pages every operation keeps the invariants, never moves \<open>freeStart\<close> down or
  \<open>freeEnd\<close> up, and never reaches the panic of \<open>setSlot\<close>.\<close>

lemma of_nat_mod_u16: "(of_nat (n mod 65536) :: u16) = of_nat n"
proof -
  have "unat (of_nat (n mod 65536) :: u16) = unat (of_nat n :: u16)"
    by (simp add: unat_of_nat)
  then show ?thesis by (simp add: word_unat_eq_iff)
qed

lemma Insert_truncates: "Insert p rec = Insert p (take (length rec mod 65536) rec)"
proof -
  let ?L = "length rec mod 65536"
  let ?u = "of_nat (length rec) :: u16"
  have Ll: "?L \<le> length rec" by simp
  have len: "length (take ?L rec) = ?L" using Ll by simp
  have u: "(of_nat (length (take ?L rec)) :: u16) = ?u"
    unfolding len by (rule of_nat_mod_u16)
  have uu: "unat ?u = ?L" by (simp add: unat_of_nat)
  have cp: "copy (buf p) (unat (freeEnd p - ?u)) (unat (freeEnd p)) rec =
            copy (buf p) (unat (freeEnd p - ?u)) (unat (freeEnd p)) (take ?L rec)"
    if "\<not> unat (freeEnd p) < unat (freeEnd p - ?u)"
  proof -
    have "freeEnd p - ?u \<le> freeEnd p" using that by (simp add: word_le_nat_alt)
    then have "?u \<le> freeEnd p" by (simp add: word_sub_le_iff)
    then have "unat (freeEnd p - ?u) = unat (freeEnd p) - ?L"
      using uu by (simp add: unat_sub)
    moreover have "?L \<le> unat (freeEnd p)" using \<open>?u \<le> freeEnd p\<close> uu by (simp add: word_le_nat_alt)
    ultimately have d: "unat (freeEnd p) - unat (freeEnd p - ?u) = ?L" by simp
    show ?thesis unfolding copy_def Let_def d len using Ll by (simp add: min_def)
  qed
  show ?thesis
  proof (cases "unat (freeEnd p) < unat (freeEnd p - ?u)")
    case True
    then show ?thesis unfolding Insert_def u Let_def by simp
  next
    case False
    show ?thesis unfolding Insert_def u Let_def cp [OF False] by (rule refl)
  qed
qed


lemma Insert_cases:
  assumes inv: "page_inv p" and small: "unat (freeEnd p) < 65532"
  shows "Insert p rec = (Inl PageFull, p) \<or> Insert p rec = (Inl BoundsPanic, p) \<or>
         (length (take (length rec mod 65536) rec) + slotSize \<le> unat (freeSpace p) \<and>
          Insert p rec = Insert p (take (length rec mod 65536) rec))"
proof -
  let ?L = "length rec mod 65536"
  let ?u = "of_nat (length rec) :: u16"
  have uu: "unat ?u = ?L" by (simp add: unat_of_nat)
  have len: "length (take ?L rec) = ?L" by simp
  show ?thesis
  proof (cases "freeSpace p < ?u + 4")
    case True
    then show ?thesis by (simp add: Insert_def)
  next
    case False
    show ?thesis
    proof (cases "?L < 65532")
      case True
      then have "unat (?u + 4) = ?L + 4" using uu by (simp add: unat_word_ariths)
      then have "?L + 4 \<le> unat (freeSpace p)" using False by (simp add: word_less_nat_alt)
      then show ?thesis using Insert_truncates [of p rec] len by simp
    next
      case big: False
      have "\<not> ?u \<le> freeEnd p" using big small uu by (simp add: word_le_nat_alt)
      then have "\<not> freeEnd p - ?u \<le> freeEnd p" by (simp add: word_sub_le_iff)
      then have "unat (freeEnd p) < unat (freeEnd p - ?u)" by (simp add: word_le_nat_alt)
      then show ?thesis using False by (simp add: Insert_def Let_def)
    qed
  qed
qed

lemma page_inv_tombstone:
  assumes inv: "page_inv p" and s: "nat s < unat (slotCount p)"
  shows "page_inv (p\<lparr>buf := PutUint16 (buf p) (hdrSize + nat s * slotSize + 2) 0\<rparr>)"
proof -
  let ?b = "buf p" and ?bs = "hdrSize + nat s * slotSize"
  let ?q = "p\<lparr>buf := PutUint16 ?b (?bs + 2) 0\<rparr>"
  have fs: "unat (freeStart p) = 8 + 4 * unat (slotCount p)"
    and le: "unat (freeStart p) \<le> unat (freeEnd p)"
    and El: "unat (freeEnd p) \<le> length ?b" and h: "hdrSize \<le> length ?b"
    using inv by (simp_all add: page_inv_def)
  have hd: "slotCount ?q = slotCount p" "freeStart ?q = freeStart p" "freeEnd ?q = freeEnd p"
    by (simp_all add: header_PutUint16)
  have slots: "Uint16 (buf ?q) (hdrSize + i * slotSize + 2) \<noteq> 0 \<longrightarrow>
          unat (freeEnd p) \<le> unat (Uint16 (buf ?q) (hdrSize + i * slotSize)) \<and>
          unat (Uint16 (buf ?q) (hdrSize + i * slotSize)) +
            unat (Uint16 (buf ?q) (hdrSize + i * slotSize + 2)) \<le> length ?b"
    if i: "i < unat (slotCount p)" for i
  proof (cases "i = nat s")
    case True
    have "Uint16 (PutUint16 ?b (?bs + 2) 0) (?bs + 2) = 0"
      using s fs le El by (intro Uint16_PutUint16_same) linarith
    then show ?thesis unfolding True by simp
  next
    case False
    have e1: "Uint16 (PutUint16 ?b (?bs + 2) 0) (hdrSize + i * slotSize) = Uint16 ?b (hdrSize + i * slotSize)"
      using False by (intro Uint16_PutUint16_other) linarith
    have e2: "Uint16 (PutUint16 ?b (?bs + 2) 0) (hdrSize + i * slotSize + 2) = Uint16 ?b (hdrSize + i * slotSize + 2)"
      using False by (intro Uint16_PutUint16_other) linarith
    have old: "Uint16 ?b (hdrSize + i * slotSize + 2) \<noteq> 0 \<longrightarrow>
          unat (freeEnd p) \<le> unat (Uint16 ?b (hdrSize + i * slotSize)) \<and>
          unat (Uint16 ?b (hdrSize + i * slotSize)) +
            unat (Uint16 ?b (hdrSize + i * slotSize + 2)) \<le> length ?b"
      using inv i unfolding page_inv_def by blast
    have b: "buf ?q = PutUint16 ?b (?bs + 2) 0" by simp
    show ?thesis unfolding b e1 e2 using old by simp
  qed
  show ?thesis
    unfolding page_inv_def hd using slots fs le El h by simp
qed

lemma page_inv_Delete: "page_inv p \<Longrightarrow> page_inv (snd (Delete p s))"
  using Delete_result [of p s] page_inv_tombstone [of p s] by auto

lemma Delete_header:
  "slotCount (snd (Delete p s)) = slotCount p \<and> freeStart (snd (Delete p s)) = freeStart p \<and>
   freeEnd (snd (Delete p s)) = freeEnd p"
  using Delete_result [of p s] by (auto simp: header_PutUint16)

lemma Delete_no_SlotIndexPanic: "fst (Delete p s) \<noteq> Some SlotIndexPanic"
proof (cases "slot p s")
  case (Inl e)
  then have "e = BoundsPanic" by (auto simp: slot_def Let_def split: if_splits)
  then show ?thesis using Inl by (simp add: Delete_def)
next
  case (Inr r)
  obtain off ln ok where r: "r = (off, ln, ok)" by (cases r)
  show ?thesis
  proof (cases "ok \<and> ln \<noteq> 0")
    case True
    with Inr r have live: "slot p s = Inr (off, ln, True)" "ln \<noteq> 0" by simp_all
    show ?thesis using Delete_live [OF live] by simp
  next
    case False
    then show ?thesis using Inr r by (auto simp: Delete_def)
  qed
qed

lemma Insert_safe:
  assumes inv: "page_inv p" and small: "unat (freeEnd p) < 65532"
  shows "page_inv (snd (Insert p rec))"
    and "unat (freeEnd (snd (Insert p rec))) \<le> unat (freeEnd p)"
    and "unat (freeStart p) \<le> unat (freeStart (snd (Insert p rec)))"
    and "fst (Insert p rec) \<noteq> Inl SlotIndexPanic"
proof -
  let ?r = "take (length rec mod 65536) rec"
  from Insert_cases [OF inv small, of rec]
  have "page_inv (snd (Insert p rec)) \<and>
        unat (freeEnd (snd (Insert p rec))) \<le> unat (freeEnd p) \<and>
        unat (freeStart p) \<le> unat (freeStart (snd (Insert p rec))) \<and>
        fst (Insert p rec) \<noteq> Inl SlotIndexPanic"
  proof (elim disjE conjE)
    assume "Insert p rec = (Inl PageFull, p)"
    then show ?thesis using inv by simp
  next
    assume "Insert p rec = (Inl BoundsPanic, p)"
    then show ?thesis using inv by simp
  next
    assume fit: "length ?r + slotSize \<le> unat (freeSpace p)" and eq: "Insert p rec = Insert p ?r"
    note pr = Insert_fits_props [OF inv fit]
    show ?thesis
      unfolding eq using page_inv_Insert [OF inv fit] pr(1,4,7) by simp
  qed
  then show "page_inv (snd (Insert p rec))"
    and "unat (freeEnd (snd (Insert p rec))) \<le> unat (freeEnd p)"
    and "unat (freeStart p) \<le> unat (freeStart (snd (Insert p rec)))"
    and "fst (Insert p rec) \<noteq> Inl SlotIndexPanic"
    by simp_all
qed


lemma Update_unfold:
  "Update p s rec =
     (case fst (Delete p s) of
        Some e \<Rightarrow> (Some e, snd (Delete p s))
      | None \<Rightarrow>
          (case fst (Insert (snd (Delete p s)) rec) of
             Inl e \<Rightarrow> (Some e, snd (Insert (snd (Delete p s)) rec))
           | Inr _ \<Rightarrow> (None, snd (Insert (snd (Delete p s)) rec))))"
  by (simp add: Update_def split: prod.splits option.splits sum.splits)

lemma Update_safe:
  assumes inv: "page_inv p" and small: "unat (freeEnd p) < 65532"
  shows "page_inv (snd (Update p s rec))"
    and "unat (freeEnd (snd (Update p s rec))) \<le> unat (freeEnd p)"
    and "unat (freeStart p) \<le> unat (freeStart (snd (Update p s rec)))"
    and "fst (Update p s rec) \<noteq> Some SlotIndexPanic"
proof -
  let ?q = "snd (Delete p s)"
  have invq: "page_inv ?q" by (rule page_inv_Delete [OF inv])
  have hq: "freeStart ?q = freeStart p" "freeEnd ?q = freeEnd p"
    using Delete_header [of p s] by simp_all
  have smallq: "unat (freeEnd ?q) < 65532" using small hq by simp
  note ins = Insert_safe [OF invq smallq, of rec]
  note d = Delete_no_SlotIndexPanic [of p s]
  show "page_inv (snd (Update p s rec))"
    using invq ins(1) by (simp add: Update_unfold split: option.splits sum.splits)
  show "unat (freeEnd (snd (Update p s rec))) \<le> unat (freeEnd p)"
    using hq ins(2) by (simp add: Update_unfold split: option.splits sum.splits)
  show "unat (freeStart p) \<le> unat (freeStart (snd (Update p s rec)))"
    using hq ins(3) by (simp add: Update_unfold split: option.splits sum.splits)
  show "fst (Update p s rec) \<noteq> Some SlotIndexPanic"
    using d ins(4) by (auto simp: Update_unfold split: option.splits sum.splits)
qed

lemma step_safe:
  assumes inv: "page_inv p" and small: "unat (freeEnd p) < 65532"
  shows "page_inv (snd (step p x)) \<and>
         unat (freeEnd (snd (step p x))) \<le> unat (freeEnd p) \<and>
         unat (freeStart p) \<le> unat (freeStart (snd (step p x))) \<and>
         fst (step p x) \<noteq> Some SlotIndexPanic"
proof (cases x)
  case (OpInsert r)
  show ?thesis
    using Insert_safe [OF inv small, of r]
    by (auto simp: OpInsert split: prod.splits sum.splits)
next
  case (OpGet s)
  have "Get p s \<noteq> Inl SlotIndexPanic"
    by (auto simp: Get_def slot_def Let_def split: if_splits sum.splits prod.splits)
  then show ?thesis using inv by (auto simp: OpGet split: sum.splits)
next
  case (OpDelete s)
  show ?thesis
    using page_inv_Delete [OF inv, of s] Delete_header [of p s] Delete_no_SlotIndexPanic [of p s]
    by (simp add: OpDelete)
next
  case (OpUpdate s r)
  show ?thesis using Update_safe [OF inv small, of s r] by (simp add: OpUpdate)
qed

lemma run_safe:
  assumes "page_inv p" and "unat (freeEnd p) < 65532" and "(e, q) \<in> set (run p xs)"
  shows "page_inv q \<and> unat (freeEnd q) \<le> unat (freeEnd p) \<and>
         unat (freeStart p) \<le> unat (freeStart q) \<and> e \<noteq> Some SlotIndexPanic"
  using assms
proof (induction xs arbitrary: p)
  case Nil
  then show ?case by simp
next
  case (Cons x xs)
  note st = step_safe [OF Cons.prems(1,2), of x]
  from Cons.prems(3) have "(e, q) = step p x \<or>
      (\<not> is_panic (fst (step p x)) \<and> (e, q) \<in> set (run (snd (step p x)) xs))"
    by (auto split: if_splits)
  then show ?case
  proof
    assume "(e, q) = step p x"
    then have "e = fst (step p x)" "q = snd (step p x)" by (simp_all add: prod_eq_iff)
    then show ?thesis using st by simp
  next
    assume a: "\<not> is_panic (fst (step p x)) \<and> (e, q) \<in> set (run (snd (step p x)) xs)"
    have small': "unat (freeEnd (snd (step p x))) < 65532" using st Cons.prems(2) by linarith
    from Cons.IH [OF _ small', of ] a st
    have "page_inv q \<and> unat (freeEnd q) \<le> unat (freeEnd (snd (step p x))) \<and>
         unat (freeStart (snd (step p x))) \<le> unat (freeStart q) \<and> e \<noteq> Some SlotIndexPanic"
      by blast
    then show ?thesis using st by linarith
  qed
qed

lemma run_fresh_safe:
  assumes "hdrSize \<le> n" and "n < 65532" and "(e, q) \<in> set (run (fresh n) xs)"
  shows "page_inv q \<and> unat (freeEnd q) \<le> n \<and> hdrSize \<le> unat (freeStart q) \<and>
         e \<noteq> Some SlotIndexPanic"
proof -
  have inv: "page_inv (fresh n)" using assms(1,2) by (simp add: page_inv_fresh)
  have fe: "unat (freeEnd (fresh n)) = n" using assms(1,2) by (simp add: fresh_header unat_of_nat_u16)
  have fs: "unat (freeStart (fresh n)) = 8" using assms(1) by (simp add: fresh_header)
  have small: "unat (freeEnd (fresh n)) < 65532" using fe assms(2) by simp
  show ?thesis using run_safe [OF inv small assms(3)] fe fs by simp
qed


lemma Update_moves_record:
  assumes inv: "page_inv p" and small: "unat (freeEnd p) < 65532"
    and live: "slot p s = Inr (off, ln, True)" "ln \<noteq> 0"
    and ok: "fst (Update p s rec) = None"
  shows "Get (snd (Update p s rec)) s = Inl NotFound"
    and "unat (slotCount (snd (Update p s rec))) = unat (slotCount p) + 1"
    and "slot (snd (Update p s rec)) (int (unat (slotCount p))) =
           Inr (freeEnd (snd (Update p s rec)), of_nat (length rec), True)"
    and "rec \<noteq> [] \<Longrightarrow> length rec < 65536 \<Longrightarrow>
           Get (snd (Update p s rec)) (int (unat (slotCount p))) = Inr rec"
proof -
  let ?q = "p\<lparr>buf := PutUint16 (buf p) (hdrSize + nat s * slotSize + 2) 0\<rparr>"
  let ?r = "take (length rec mod 65536) rec"
  note l = slot_live [OF live(1)]
  have del: "Delete p s = (None, ?q)" by (rule Delete_live [OF live])
  have invq: "page_inv ?q" by (rule page_inv_tombstone [OF inv l(2)])
  have hq: "slotCount ?q = slotCount p" "freeEnd ?q = freeEnd p"
    by (simp_all add: header_PutUint16)
  have smallq: "unat (freeEnd ?q) < 65532" using small hq by simp
  have up: "Update p s rec =
      (case fst (Insert ?q rec) of Inl e \<Rightarrow> (Some e, snd (Insert ?q rec))
       | Inr _ \<Rightarrow> (None, snd (Insert ?q rec)))"
    by (simp add: Update_unfold del cong del: sum.case_cong_weak)
  have succ: "\<exists>i. fst (Insert ?q rec) = Inr i"
    using ok unfolding up by (cases "fst (Insert ?q rec)") simp_all
  then have snd_up: "snd (Update p s rec) = snd (Insert ?q rec)" unfolding up by auto
  from Insert_cases [OF invq smallq, of rec] succ
  have fit: "length ?r + slotSize \<le> unat (freeSpace ?q)" and eq: "Insert ?q rec = Insert ?q ?r"
    by auto
  note pr = Insert_fits_props [OF invq fit]
  have tomb: "Get ?q s = Inl NotFound"
    unfolding Get_def slot_tombstone_same [OF live(1)] by simp
  have lr: "(of_nat (length ?r) :: u16) = of_nat (length rec)"
    using of_nat_mod_u16 [of "length rec"] by simp
  show "Get (snd (Update p s rec)) s = Inl NotFound"
    unfolding snd_up eq using Get_Insert_old [OF invq fit l(1)] l(2) hq tomb by simp
  show "unat (slotCount (snd (Update p s rec))) = unat (slotCount p) + 1"
    unfolding snd_up eq using pr(6) hq by simp
  show "slot (snd (Update p s rec)) (int (unat (slotCount p))) =
           Inr (freeEnd (snd (Update p s rec)), of_nat (length rec), True)"
    unfolding snd_up eq using pr(3) hq lr by simp
  show "Get (snd (Update p s rec)) (int (unat (slotCount p))) = Inr rec"
    if "rec \<noteq> []" "length rec < 65536"
  proof -
    have "?r = rec" using that(2) by simp
    then show ?thesis
      unfolding snd_up eq using Get_Insert_new [OF invq fit] that(1) hq by simp
  qed
qed

section \<open>Where the code departs from the specification\<close>

lemmas page_defs = Insert_def freeSpace_def slotCount_def freeStart_def freeEnd_def
  setFreeEnd_def setFreeStart_def setSlotCount_def setSlot_def copy_def Let_def Uint16_def
  nth_PutUint16 fresh_buf

lemmas op_defs = Update_def Delete_def Get_def slot_def

lemma Insert_PageFull:
  assumes "length rec < 65532" and "unat (freeSpace p) < length rec + slotSize"
  shows "Insert p rec = (Inl PageFull, p)"
proof -
  have "unat (of_nat (length rec) :: u16) = length rec"
    using assms(1) by (simp add: unat_of_nat_u16)
  then have "unat ((of_nat (length rec) :: u16) + 4) = length rec + 4"
    using assms(1) by (simp add: unat_word_ariths)
  then have "freeSpace p < (of_nat (length rec) :: u16) + 4"
    using assms(2) by (simp add: word_less_nat_alt)
  then show ?thesis by (simp add: Insert_def)
qed

lemma Update_no_room:
  assumes "slot p s = Inr (off, ln, True)" and "ln \<noteq> 0"
    and "length rec < 65532" and "unat (freeSpace p) < length rec + slotSize"
  shows "Update p s rec =
    (Some PageFull, p\<lparr>buf := PutUint16 (buf p) (hdrSize + nat s * slotSize + 2) 0\<rparr>)"
proof -
  let ?q = "p\<lparr>buf := PutUint16 (buf p) (hdrSize + nat s * slotSize + 2) 0\<rparr>"
  have "freeSpace ?q = freeSpace p" by (simp add: header_PutUint16)
  then have "Insert ?q rec = (Inl PageFull, ?q)"
    using assms(3,4) by (intro Insert_PageFull) simp_all
  then show ?thesis
    unfolding Update_def Delete_live [OF assms(1,2)] by simp
qed

text \<open>Claim C1 says that an operation that returns an error leaves the buffer as it
  was, and in particular that \<open>Update(s, R2)\<close> with \<open>len(R2) + 4\<close> above the free space
  fails and leaves slot \<open>s\<close> live. \<open>Insert\<close>, \<open>Get\<close> and \<open>Delete\<close> do so; \<open>Update\<close> does
  not: it deletes first and inserts second (lemma \<open>Update_no_room\<close>). On a fresh
  4096-byte page holding one 100-byte record in slot 0, \<open>Update(0, R2)\<close> with a
  5000-byte \<open>R2\<close> returns "page is full" and slot 0 is gone.\<close>

theorem Update_failure_deletes_slot:
  "(let p = snd (Insert (fresh 4096) (replicate 100 1)) in
      page_inv p \<and>
      Get p 0 = Inr (replicate 100 1) \<and>
      unat (freeSpace p) = 3984 \<and>
      fst (Update p 0 (replicate 5000 2)) = Some PageFull \<and>
      Get (snd (Update p 0 (replicate 5000 2))) 0 = Inl NotFound \<and>
      snd (Update p 0 (replicate 5000 2)) \<noteq> p)"
proof -
  let ?r = "replicate 100 (1 :: byte)" and ?r2 = "replicate 5000 (2 :: byte)"
  let ?p = "snd (Insert (fresh 4096) ?r)"
  let ?q = "snd (Update ?p 0 ?r2)"
  have inv0: "page_inv (fresh 4096)" by (simp add: page_inv_fresh)
  have fit0: "length ?r + slotSize \<le> unat (freeSpace (fresh 4096))"
    by (simp add: unat_freeSpace fresh_header)
  note pr = Insert_fits_props [OF inv0 fit0]
  have inv: "page_inv ?p" by (rule page_inv_Insert [OF inv0 fit0])
  have h: "unat (freeStart ?p) = 12" "unat (freeEnd ?p) = 3996"
    using pr(4,7) by (simp_all add: fresh_header)
  have sp: "unat (freeSpace ?p) = 3984" by (simp add: unat_freeSpace h)
  have g: "Get ?p 0 = Inr ?r" using Get_Insert_new [OF inv0 fit0] by (simp add: fresh_header)
  have sl: "slot ?p 0 = Inr (freeEnd ?p, 100, True)" using pr(3) by (simp add: fresh_header)
  have nz: "(100 :: u16) \<noteq> 0" by simp
  have u: "Update ?p 0 ?r2 = (Some PageFull, ?p\<lparr>buf := PutUint16 (buf ?p) (hdrSize + nat 0 * slotSize + 2) 0\<rparr>)"
    by (rule Update_no_room [OF sl nz]) (simp_all add: sp)
  have n: "Get ?q 0 = Inl NotFound"
    unfolding u Get_def snd_conv slot_tombstone_same [OF sl] by simp
  have "?q \<noteq> ?p" using g n by auto
  then show ?thesis using inv g sp u n by (simp add: Let_def)
qed

theorem Update_failure_deletes_slot_witness:
  "fst (Update (snd (Insert (fresh 4096) (replicate 100 1))) 0 (replicate 5000 2)) = Some PageFull \<and>
   Get (snd (Update (snd (Insert (fresh 4096) (replicate 100 1))) 0 (replicate 5000 2))) 0 = Inl NotFound"
  using Update_failure_deletes_slot by (simp add: Let_def)

lemma Insert_PageFull_iff:
  assumes "length rec < 65532"
  shows "fst (Insert p rec) = Inl PageFull \<longleftrightarrow> unat (freeSpace p) < length rec + slotSize"
proof
  assume "unat (freeSpace p) < length rec + slotSize"
  then show "fst (Insert p rec) = Inl PageFull" using Insert_PageFull [OF assms] by simp
next
  assume pf: "fst (Insert p rec) = Inl PageFull"
  show "unat (freeSpace p) < length rec + slotSize"
  proof (rule ccontr)
    assume "\<not> unat (freeSpace p) < length rec + slotSize"
    moreover have "unat (of_nat (length rec) :: u16) = length rec"
      using assms by (simp add: unat_of_nat_u16)
    then have "unat ((of_nat (length rec) :: u16) + 4) = length rec + 4"
      using assms by (simp add: unat_word_ariths)
    ultimately have "\<not> freeSpace p < (of_nat (length rec) :: u16) + 4"
      by (simp add: word_less_nat_alt)
    then have "fst (Insert p rec) \<noteq> Inl PageFull"
      by (auto simp: Insert_def Let_def setSlot_def split: prod.splits option.splits if_splits)
    then show False using pf by simp
  qed
qed

lemma Insert_PageFull_unchanged: "fst (Insert p rec) = Inl PageFull \<Longrightarrow> snd (Insert p rec) = p"
  by (auto simp: Insert_def Let_def setSlot_def split: prod.splits option.splits if_splits)

text \<open>Claim C2 says that \<open>Insert(R)\<close> fails with \<open>PageFull\<close> exactly when
  \<open>len(R) + 4 > freeEnd - freeStart\<close>, for records of any length. The code computes
  \<open>uint16(len(rec)) + 4\<close>, which wraps: on a fresh 4096-byte page (4088 bytes free) a
  record of 65536 bytes is accepted as slot 0, and a record of 65535 bytes ends in a
  slice-bounds panic instead of \<open>PageFull\<close>. For records shorter than 65532 bytes the
  test is the one the claim states (lemma \<open>Insert_PageFull_iff\<close>).\<close>

theorem Insert_oversized_record_accepted:
  "unat (freeSpace (fresh 4096)) = 4088 \<and>
   length (replicate 65536 (0 :: byte)) + slotSize > unat (freeSpace (fresh 4096)) \<and>
   fst (Insert (fresh 4096) (replicate 65536 0)) = Inr 0 \<and>
   fst (Insert (fresh 4096) (replicate 65535 0)) = Inl BoundsPanic"
  by (simp add: page_defs)

theorem Insert_oversized_record_accepted_witness:
  "fst (Insert (fresh 4096) (replicate 65536 0)) \<noteq> Inl PageFull"
  using Insert_oversized_record_accepted by simp

text \<open>Claim C6 says that after a successful \<open>Update(s, R2)\<close> the old slot \<open>s\<close> is
  not-found. On a page of 65535 bytes holding one 1-byte record in slot 0 (a page that
  satisfies the invariants), \<open>Update(0, R2)\<close> with 65532 bytes \<open>0x01\<close> succeeds: the
  wrapped free-space test lets the insert through, the record is copied over the slot
  directory, and \<open>Get(0)\<close> then returns 257 bytes of the new record. Where
  \<open>freeEnd < 65532\<close> (every buffer of at most 65531 bytes) the claim holds (lemma
  \<open>Update_moves_record\<close>).\<close>

theorem Update_oversized_revives_slot:
  "(let p = snd (Insert (fresh 65535) [7]) in
      page_inv p \<and>
      Get p 0 = Inr [7] \<and>
      fst (Update p 0 (replicate 65532 1)) = None \<and>
      Get (snd (Update p 0 (replicate 65532 1))) 0 = Inr (replicate 257 1))"
proof -
  let ?p = "snd (Insert (fresh 65535) [7])"
  have inv0: "page_inv (fresh 65535)" by (simp add: page_inv_fresh)
  have fit0: "length [7 :: byte] + slotSize \<le> unat (freeSpace (fresh 65535))"
    by (simp add: unat_freeSpace fresh_header)
  have inv: "page_inv ?p" by (rule page_inv_Insert [OF inv0 fit0])
  have g: "Get ?p 0 = Inr [7]" using Get_Insert_new [OF inv0 fit0] by (simp add: fresh_header)
  have u: "fst (Update ?p 0 (replicate 65532 1)) = None"
    by (simp add: page_defs op_defs nth_append)
  have n: "Get (snd (Update ?p 0 (replicate 65532 1))) 0 = Inr (replicate 257 1)"
    by (simp add: page_defs op_defs nth_append drop_PutUint16)
  show ?thesis using inv g u n by (simp add: Let_def)
qed

theorem Update_oversized_revives_slot_witness:
  "Get (snd (Update (snd (Insert (fresh 65535) [7])) 0 (replicate 65532 1))) 0 \<noteq> Inl NotFound"
  using Update_oversized_revives_slot by (simp add: Let_def)

text \<open>Claim C7 says that \<open>freeStart\<close> never decreases over the operations on a page
  that started freshly initialized. On a fresh page of 65535 bytes, \<open>Insert\<close> of a
  record of 65535 zero bytes passes the wrapped free-space test, copies the record over
  the whole buffer, header included, and returns slot 0 with \<open>freeStart = 4\<close>, down
  from 8. From a fresh page of at most 65531 bytes \<open>freeStart\<close> never decreases and
  \<open>freeEnd\<close> never increases (lemmas \<open>run_safe\<close>, \<open>run_fresh_safe\<close>).\<close>

theorem Insert_freeStart_decreases:
  "freeStart (fresh 65535) = 8 \<and>
   fst (Insert (fresh 65535) (replicate 65535 0)) = Inr 0 \<and>
   freeStart (snd (Insert (fresh 65535) (replicate 65535 0))) = 4"
  by (simp add: page_defs)

theorem Insert_freeStart_decreases_witness:
  "unat (freeStart (snd (Insert (fresh 65535) (replicate 65535 0)))) < unat (freeStart (fresh 65535))"
  using Insert_freeStart_decreases by simp

text \<open>Claim C9 says that on a fresh page of fewer than 65536 bytes the panic of
  \<open>setSlot\<close> cannot be reached. On a fresh page of 65535 bytes, \<open>Insert\<close> of a record
  of 65535 bytes \<open>0xFF\<close> passes the wrapped free-space test and overwrites the header:
  \<open>slotCount\<close> reads 65535, wraps to 0 when incremented, and \<open>setSlot(65535, ...)\<close>
  panics with "invalid slot index". From a fresh page of at most 65531 bytes no
  sequence of operations reaches that panic (lemma \<open>run_fresh_safe\<close>).\<close>

theorem Insert_reaches_setSlot_panic:
  "length (buf (fresh 65535)) = 65535 \<and>
   fst (Insert (fresh 65535) (replicate 65535 0xFF)) = Inl SlotIndexPanic"
  by (simp add: page_defs)

theorem Insert_reaches_setSlot_panic_witness:
  "fst (Insert (fresh 65535) (replicate 65535 0xFF)) \<noteq> Inl PageFull \<and>
   fst (Insert (fresh 65535) (replicate 65535 0xFF)) \<noteq> Inr 0"
  using Insert_reaches_setSlot_panic by simp

end
